theory Spec2Isabelle
  imports Main "HOL-Library.Word"
begin

section \<open>The Ogg Vorbis decoder loop (src/ogg_decode.c)\<close>

text \<open>
  \<open>ogg_decode\<close> fills a ring buffer of fixed-size chunks that the player thread
  empties. The buffer and the control block are shared with the player; the Vorbis
  library, the input stream and the player are outside the file, so they enter the
  model as data: the results that successive \<open>ov_read\<close> calls deliver, and the
  player's actions during each \<open>my_usleep\<close>.
\<close>

type_synonym byte = "8 word"

text \<open>
  \<open>CHUNK_SIZE\<close> is a macro and \<open>buffered_chunks\<close> a global of headers that are not
  part of the sources; both are parameters of the model.
\<close>

record globals =
  CHUNK_SIZE :: nat
  buffered_chunks :: nat

text \<open>
  Modelled from the spec: the decoder states (\<open>DECODE_STATE_DECODE\<close> and
  \<open>DECODE_STATE_STOP\<close> are the two that ogg_decode.c names; their header is missing).
\<close>

datatype decode_state =
  DECODE_STATE_START | DECODE_STATE_DECODE | DECODE_STATE_STOP | DECODE_STATE_ERROR

text \<open>
  The \<open>Buffer\<close> struct, with the fields ogg_decode.c uses. \<open>begin\<close> and \<open>end\<close> are
  keywords of Isabelle and \<open>times\<close> is a constant of HOL, hence the prefix
  (\<open>file\<close> is a keyword too). Time stamps are floating-point numbers in C; the
  decoder only copies them, so they are integers here (milliseconds).
\<close>

record Buffer =
  chunks :: "byte list"
  chunkSize :: "int list"
  bitRate :: "int list"
  cb_times :: "int list"
  cb_begin :: nat
  cb_end :: nat
  wrap :: bool
  totalTime :: int

record DecoderControl =
  state :: decode_state
  stop :: bool
  seek :: bool
  seekWhere :: int
  start :: bool
  dc_file :: string

record AudioFormat =
  bits :: int
  channels :: int
  sampleRate :: int

subsection \<open>The Vorbis library, as the decoder sees it\<close>

text \<open>
  \<open>ov_read\<close> returns the number of bytes decoded, 0 at the end of the stream, or a
  negative error code. A stream is the list of what the coming calls deliver; a
  packet longer than the space offered is delivered in pieces.
\<close>

datatype ov_error = OV_HOLE | OV_EBADLINK | OV_EINVAL

fun ov_code :: "ov_error \<Rightarrow> int" where
  "ov_code OV_HOLE = -3"
| "ov_code OV_EBADLINK = -129"
| "ov_code OV_EINVAL = -131"

datatype ov_packet = Pcm "byte list" int int | Fault ov_error

record OggVorbis_File =
  packets :: "ov_packet list"
  time_tell :: int
  bitrate_instant :: int
  seeks :: "int list"
  vi_channels :: int
  vi_rate :: int
  time_total :: int
  cleared :: bool

definition ov_read :: "OggVorbis_File \<Rightarrow> nat \<Rightarrow> int \<times> byte list \<times> OggVorbis_File" where
  "ov_read f len =
     (case packets f of
        [] \<Rightarrow> (0, [], f)
      | Fault e # rest \<Rightarrow> (ov_code e, [], f\<lparr>packets := rest\<rparr>)
      | Pcm bs t r # rest \<Rightarrow>
          if length bs \<le> len
          then (int (length bs), bs,
                f\<lparr>packets := rest, time_tell := t, bitrate_instant := r\<rparr>)
          else (int len, take len bs,
                f\<lparr>packets := Pcm (drop len bs) t r # rest, time_tell := t,
                  bitrate_instant := r\<rparr>))"

definition ov_time_seek_page :: "OggVorbis_File \<Rightarrow> int \<Rightarrow> OggVorbis_File" where
  "ov_time_seek_page f t = f\<lparr>time_tell := t, seeks := t # seeks f\<rparr>"

definition ov_time_tell :: "OggVorbis_File \<Rightarrow> int" where
  "ov_time_tell f = time_tell f"

definition ov_bitrate_instant :: "OggVorbis_File \<Rightarrow> int" where
  "ov_bitrate_instant f = bitrate_instant f"

definition ov_clear :: "OggVorbis_File \<Rightarrow> OggVorbis_File" where
  "ov_clear f = f\<lparr>packets := [], cleared := True\<rparr>"

subsection \<open>The state of the loop\<close>

text \<open>
  The player thread owns \<open>begin\<close> and sets \<open>stop\<close> and \<open>seek\<close>. It runs while the
  decoder sleeps: one action of the list per \<open>my_usleep\<close>, any change of the shared
  buffer and control block being possible. When the list is used up the player does
  nothing more. Theorems about one iteration are stated for every state at its
  head, so they hold whatever the player did up to there.
\<close>

type_synonym player_action = "Buffer \<times> DecoderControl \<Rightarrow> Buffer \<times> DecoderControl"

record decoder =
  cb :: Buffer
  dc :: DecoderControl
  vf :: OggVorbis_File
  eof :: bool
  chunk :: "byte list"
  chunkpos :: int
  l_bitRate :: int
  player :: "player_action list"
  slept :: nat

text \<open>Writing \<open>src\<close> into \<open>dst\<close> at offset \<open>off\<close>, as \<open>ov_read\<close> and \<open>memcpy\<close> do.\<close>

definition poke :: "byte list \<Rightarrow> nat \<Rightarrow> byte list \<Rightarrow> byte list" where
  "poke dst off src = take off dst @ src @ drop (off + length src) dst"

definition memcpy :: "byte list \<Rightarrow> nat \<Rightarrow> byte list \<Rightarrow> nat \<Rightarrow> byte list" where
  "memcpy dst off src n = poke dst off (take n src)"

text \<open>Lines 128 to 134: a pending seek at the head of an iteration.\<close>

definition ogg_seek :: "decoder \<Rightarrow> decoder" where
  "ogg_seek s =
     (if seek (dc s)
      then s\<lparr>cb := (cb s)\<lparr>cb_end := cb_begin (cb s), wrap := False\<rparr>,
             chunkpos := 0,
             vf := ov_time_seek_page (vf s) (seekWhere (dc s)),
             dc := (dc s)\<lparr>seek := False\<rparr>\<rparr>
      else s)"

text \<open>Lines 135 to 141: one \<open>ov_read\<close> into the scratch chunk.\<close>

definition ogg_read :: "globals \<Rightarrow> decoder \<Rightarrow> decoder" where
  "ogg_read g s =
     (case ov_read (vf s) (nat (int (CHUNK_SIZE g) - chunkpos s)) of
        (ret, data, f) \<Rightarrow>
          (let s1 = s\<lparr>vf := f, chunk := poke (chunk s) (nat (chunkpos s)) data\<rparr>
           in if ret \<le> 0 then s1\<lparr>eof := True\<rparr>
              else s1\<lparr>chunkpos := chunkpos s + ret\<rparr>))"

text \<open>
  Lines 143 to 147: the wait for a free slot. Each round sleeps 10000 microseconds,
  during which the player acts. A full buffer with no request pending and a player
  that does nothing more is a wait without end: the value \<open>None\<close>.
\<close>

fun wait_loop ::
  "player_action list \<Rightarrow> Buffer \<Rightarrow> DecoderControl \<Rightarrow> nat \<Rightarrow>
   (Buffer \<times> DecoderControl \<times> player_action list \<times> nat) option" where
  "wait_loop [] b d t =
     (if cb_begin b = cb_end b \<and> wrap b \<and> \<not> stop d \<and> \<not> seek d then None
      else Some (b, d, [], t))"
| "wait_loop (p # ps) b d t =
     (if cb_begin b = cb_end b \<and> wrap b \<and> \<not> stop d \<and> \<not> seek d
      then wait_loop ps (fst (p (b, d))) (snd (p (b, d))) (t + 10000)
      else Some (b, d, p # ps, t))"

definition ogg_wait :: "decoder \<Rightarrow> decoder option" where
  "ogg_wait s =
     (case wait_loop (player s) (cb s) (dc s) (slept s) of
        None \<Rightarrow> None
      | Some (b, d, ps, t) \<Rightarrow> Some (s\<lparr>cb := b, dc := d, player := ps, slept := t\<rparr>))"

text \<open>Lines 151 to 164: the finished chunk goes into the slot at \<open>end\<close>.\<close>

definition ogg_push :: "globals \<Rightarrow> decoder \<Rightarrow> decoder" where
  "ogg_push g s =
     (let b = cb s;
          e = cb_end b;
          test = ov_bitrate_instant (vf s);
          br = (if test > 0 then test div 1000 else l_bitRate s);
          b1 = b\<lparr>chunks := memcpy (chunks b) (e * CHUNK_SIZE g) (chunk s) (nat (chunkpos s)),
                 chunkSize := (chunkSize b)[e := chunkpos s],
                 cb_times := (cb_times b)[e := ov_time_tell (vf s)],
                 bitRate := (bitRate b)[e := br]\<rparr>;
          b2 = (if Suc e \<ge> buffered_chunks g then b1\<lparr>cb_end := 0, wrap := True\<rparr>
                else b1\<lparr>cb_end := Suc e\<rparr>)
      in s\<lparr>cb := b2, chunkpos := 0, l_bitRate := br\<rparr>)"

text \<open>
  Lines 142 to 165: what happens once the chunk is complete or the stream has ended.
  The four ways through the loop body are the four values of \<open>step\<close>.
\<close>

datatype step = Filling | Broke | Again | Pushed

definition ogg_boundary :: "globals \<Rightarrow> decoder \<Rightarrow> (step \<times> decoder) option" where
  "ogg_boundary g s =
     (case ogg_wait s of
        None \<Rightarrow> None
      | Some t \<Rightarrow>
          Some (if stop (dc t) then (Broke, t)
                else if seek (dc t) then (Again, t)
                else (Pushed, ogg_push g t)))"

definition ogg_iteration :: "globals \<Rightarrow> decoder \<Rightarrow> (step \<times> decoder) option" where
  "ogg_iteration g s =
     (let s2 = ogg_read g (ogg_seek s)
      in if chunkpos s2 \<ge> int (CHUNK_SIZE g) \<or> eof s2 then ogg_boundary g s2
         else Some (Filling, s2))"

text \<open>The size of what a stream still holds: it shrinks with every successful read.\<close>

fun packet_size :: "ov_packet \<Rightarrow> nat" where
  "packet_size (Pcm bs t r) = Suc (length bs)"
| "packet_size (Fault e) = 1"

definition to_read :: "decoder \<Rightarrow> nat" where
  "to_read s = (if eof s then 0 else Suc (sum_list (map packet_size (packets (vf s)))))"

lemma wait_loop_result:
  "wait_loop ps b d t = Some (b', d', ps', t') \<Longrightarrow>
   \<not> (cb_begin b' = cb_end b' \<and> wrap b' \<and> \<not> stop d' \<and> \<not> seek d')"
  by (induction ps arbitrary: b d t) (auto split: if_splits)

lemma ogg_wait_frame:
  "ogg_wait s = Some t \<Longrightarrow>
   vf t = vf s \<and> eof t = eof s \<and> chunk t = chunk s \<and> chunkpos t = chunkpos s \<and>
   l_bitRate t = l_bitRate s"
  by (auto simp: ogg_wait_def split: option.splits)

lemma ogg_wait_ready:
  "ogg_wait s = Some t \<Longrightarrow>
   \<not> (cb_begin (cb t) = cb_end (cb t) \<and> wrap (cb t) \<and> \<not> stop (dc t) \<and> \<not> seek (dc t))"
  by (auto simp: ogg_wait_def split: option.splits dest: wait_loop_result)

lemma ogg_push_frame: "vf (ogg_push g s) = vf s \<and> eof (ogg_push g s) = eof s"
  by (simp add: ogg_push_def Let_def)

lemma ogg_seek_frame:
  "packets (vf (ogg_seek s)) = packets (vf s) \<and> eof (ogg_seek s) = eof s"
  by (simp add: ogg_seek_def ov_time_seek_page_def)

lemma ogg_read_shrinks: "\<not> eof s \<Longrightarrow> to_read (ogg_read g s) < to_read s"
  by (auto simp: ogg_read_def ov_read_def to_read_def Let_def
      split: list.splits ov_packet.splits)

lemma ogg_boundary_frame:
  "ogg_boundary g s = Some (w, t) \<Longrightarrow> vf t = vf s \<and> eof t = eof s"
  by (auto simp: ogg_boundary_def ogg_push_frame split: option.splits if_splits
      dest: ogg_wait_frame)

lemma ogg_iteration_shrinks:
  assumes "ogg_iteration g s = Some (w, t)" and "\<not> eof s"
  shows "to_read t < to_read s"
proof -
  let ?s2 = "ogg_read g (ogg_seek s)"
  have "to_read (ogg_seek s) = to_read s"
    using ogg_seek_frame [of s] by (simp add: to_read_def)
  moreover have "\<not> eof (ogg_seek s)"
    using assms(2) ogg_seek_frame [of s] by simp
  ultimately have less: "to_read ?s2 < to_read s"
    using ogg_read_shrinks [of "ogg_seek s" g] by simp
  have "to_read t = to_read ?s2"
    using assms(1) ogg_boundary_frame [of g ?s2 w t]
    by (auto simp: ogg_iteration_def Let_def to_read_def split: if_splits)
  with less show ?thesis by simp
qed

text \<open>Lines 127 to 166: the loop. \<open>break\<close> leaves it; every other way tests \<open>eof\<close> again.\<close>

function ogg_loop :: "globals \<Rightarrow> decoder \<Rightarrow> decoder option" where
  "ogg_loop g s =
     (if eof s then Some s
      else (case ogg_iteration g s of
              None \<Rightarrow> None
            | Some (w, t) \<Rightarrow> if w = Broke then Some t else ogg_loop g t))"
  by pat_completeness auto
termination
  by (relation "measure (\<lambda>(g, s). to_read s)") (auto dest: ogg_iteration_shrinks)

text \<open>Lines 168 to 176: after the loop.\<close>

definition ogg_finish :: "decoder \<Rightarrow> decoder" where
  "ogg_finish s =
     (let d = dc s;
          d1 = (if seek d then d\<lparr>seek := False\<rparr> else d);
          d2 = (if stop d1 then d1\<lparr>state := DECODE_STATE_STOP, stop := False\<rparr>
                else d1\<lparr>state := DECODE_STATE_STOP\<rparr>)
      in s\<lparr>vf := ov_clear (vf s), dc := d2\<rparr>)"

text \<open>
  Lines 85 to 180. What the file name of the control block leads to decides the two
  early returns: a file that cannot be opened, one that is no Ogg bit stream, or a
  Vorbis stream. \<open>ERROR\<close> writes a line to the log.
\<close>

datatype source = Unreadable | Garbage | Vorbis OggVorbis_File

record outcome =
  returned :: int
  out_cb :: Buffer
  out_af :: AudioFormat
  out_dc :: DecoderControl
  out_log :: "string list"

definition ogg_decode ::
  "globals \<Rightarrow> (string \<Rightarrow> source) \<Rightarrow> player_action list \<Rightarrow>
   Buffer \<Rightarrow> AudioFormat \<Rightarrow> DecoderControl \<Rightarrow> outcome option" where
  "ogg_decode g disk ps b af d =
     (case disk (dc_file d) of
        Unreadable \<Rightarrow>
          Some \<lparr>returned = -1, out_cb = b, out_af = af, out_dc = d,
                out_log = [''failed to open ogg'']\<rparr>
      | Garbage \<Rightarrow>
          Some \<lparr>returned = -1, out_cb = b, out_af = af, out_dc = d,
                out_log = [''Input does not appear to be an Ogg bit stream.'']\<rparr>
      | Vorbis f \<Rightarrow>
          (case ogg_loop g
                  \<lparr>cb = b\<lparr>totalTime := time_total f\<rparr>,
                   dc = d\<lparr>state := DECODE_STATE_DECODE, start := False\<rparr>,
                   vf = f, eof = False, chunk = replicate (CHUNK_SIZE g) 0,
                   chunkpos = 0, l_bitRate = 0, player = ps, slept = 0\<rparr> of
             None \<Rightarrow> None
           | Some s \<Rightarrow>
               Some \<lparr>returned = 0, out_cb = cb (ogg_finish s),
                     out_af = af\<lparr>bits := 16, channels := vi_channels f,
                                 sampleRate := vi_rate f\<rparr>,
                     out_dc = dc (ogg_finish s), out_log = []\<rparr>))"

text \<open>
  What the wait loop of lines 143 to 147 tests: the ring is full and neither request
  is pending. \<open>played k s\<close> is the buffer and the control block after the player
  has taken its first \<open>k\<close> turns, one for each sleep of the decoder.
\<close>

definition blocked :: "Buffer \<times> DecoderControl \<Rightarrow> bool" where
  "blocked x = (cb_begin (fst x) = cb_end (fst x) \<and> wrap (fst x)
                \<and> \<not> stop (snd x) \<and> \<not> seek (snd x))"

definition played :: "nat \<Rightarrow> decoder \<Rightarrow> Buffer \<times> DecoderControl" where
  "played k s = foldl (\<lambda>x p. p x) (cb s, dc s) (take k (player s))"

subsection \<open>Concrete states\<close>

text \<open>
  A ring of four chunks of two bytes, used where a property is evaluated on an
  explicit input. \<open>consume\<close> is the player taking one chunk.
\<close>

definition four_chunks :: globals where
  "four_chunks = \<lparr>CHUNK_SIZE = 2, buffered_chunks = 4\<rparr>"

definition empty_stream :: OggVorbis_File where
  "empty_stream = \<lparr>packets = [], time_tell = 0, bitrate_instant = 0, seeks = [],
     vi_channels = 2, vi_rate = 44100, time_total = 0, cleared = False\<rparr>"

definition ring :: "nat \<Rightarrow> nat \<Rightarrow> bool \<Rightarrow> Buffer" where
  "ring b e w = \<lparr>chunks = replicate 8 0, chunkSize = [0, 0, 0, 0], bitRate = [0, 0, 0, 0],
     cb_times = [0, 0, 0, 0], cb_begin = b, cb_end = e, wrap = w, totalTime = 0\<rparr>"

definition control :: "bool \<Rightarrow> bool \<Rightarrow> DecoderControl" where
  "control st sk = \<lparr>state = DECODE_STATE_DECODE, stop = st, seek = sk, seekWhere = 42,
     start = False, dc_file = ''a.ogg''\<rparr>"

definition at_work :: "Buffer \<Rightarrow> DecoderControl \<Rightarrow> ov_packet list \<Rightarrow> byte list \<Rightarrow> decoder" where
  "at_work b d ps bytes = \<lparr>cb = b, dc = d, vf = empty_stream\<lparr>packets := ps\<rparr>, eof = False,
     chunk = bytes @ replicate (2 - length bytes) 0, chunkpos = int (length bytes),
     l_bitRate = 0, player = [], slept = 0\<rparr>"


definition consume :: player_action where
  "consume = (\<lambda>(b, d). (b\<lparr>cb_begin := Suc (cb_begin b)\<rparr>, d))"

definition both_requests :: player_action where
  "both_requests = (\<lambda>(b, d). (b, d\<lparr>stop := True, seek := True\<rparr>))"

definition waiting :: "decoder \<Rightarrow> player_action list \<Rightarrow> decoder" where
  "waiting s ps = s\<lparr>player := ps\<rparr>"

definition fresh_control :: DecoderControl where
  "fresh_control = (control False False)\<lparr>state := DECODE_STATE_START\<rparr>"

subsection \<open>Facts about the phases of an iteration\<close>

lemma ogg_read_seeks: "seeks (vf (ogg_read g s)) = seeks (vf s)"
  by (auto simp: ogg_read_def ov_read_def Let_def split: list.splits ov_packet.splits)

lemma ogg_boundary_cases:
  assumes "ogg_boundary g s = Some (w, s')"
  obtains t where "ogg_wait s = Some t"
    and "w = Broke \<and> stop (dc t) \<and> s' = t
       \<or> w = Again \<and> \<not> stop (dc t) \<and> seek (dc t) \<and> s' = t
       \<or> w = Pushed \<and> \<not> stop (dc t) \<and> \<not> seek (dc t) \<and> s' = ogg_push g t"
  using assms by (auto simp: ogg_boundary_def split: option.splits if_splits)

lemma ogg_loop_broke:
  "\<not> eof s \<Longrightarrow> ogg_iteration g s = Some (Broke, t) \<Longrightarrow> ogg_loop g s = Some t"
  by (subst ogg_loop.simps) simp

lemma ogg_loop_last:
  "\<not> eof s \<Longrightarrow> ogg_iteration g s = Some (w, t) \<Longrightarrow> eof t \<Longrightarrow> ogg_loop g s = Some t"
  by (subst ogg_loop.simps, subst ogg_loop.simps) simp

lemma ogg_finish_state: "state (dc (ogg_finish s)) = DECODE_STATE_STOP"
  by (simp add: ogg_finish_def Let_def)

text \<open>
  The wait loop changes the shared state only by letting the player act: it ends
  after \<open>k\<close> sleeps at the first state that is not blocked, and it never ends when
  every state the player brings about is blocked.
\<close>

lemma wait_loop_trace:
  "wait_loop ps b d n = Some (b', d', ps', n') \<Longrightarrow>
   \<exists>k \<le> length ps. ps' = drop k ps \<and> n' = n + 10000 * k
      \<and> (b', d') = foldl (\<lambda>x p. p x) (b, d) (take k ps)
      \<and> (\<forall>j < k. blocked (foldl (\<lambda>x p. p x) (b, d) (take j ps)))"
proof (induction ps arbitrary: b d n)
  case Nil
  then show ?case by (simp split: if_splits)
next
  case (Cons p ps)
  show ?case
  proof (cases "blocked (b, d)")
    case False
    then have "b' = b \<and> d' = d \<and> ps' = p # ps \<and> n' = n"
      using Cons.prems by (auto simp: blocked_def)
    then show ?thesis
      by (intro exI [of _ 0]) simp
  next
    case True
    then have "wait_loop ps (fst (p (b, d))) (snd (p (b, d))) (n + 10000) = Some (b', d', ps', n')"
      using Cons.prems by (simp add: blocked_def)
    from Cons.IH [OF this]
    obtain k where k: "k \<le> length ps" "ps' = drop k ps" "n' = n + 10000 + 10000 * k"
        "(b', d') = foldl (\<lambda>x p. p x) (p (b, d)) (take k ps)"
        "\<forall>j < k. blocked (foldl (\<lambda>x p. p x) (p (b, d)) (take j ps))"
      by auto
    have "\<forall>j < Suc k. blocked (foldl (\<lambda>x p. p x) (b, d) (take j (p # ps)))"
    proof (intro allI impI)
      fix j assume "j < Suc k"
      then show "blocked (foldl (\<lambda>x p. p x) (b, d) (take j (p # ps)))"
        using True k(5) by (cases j) simp_all
    qed
    then show ?thesis
      using k by (intro exI [of _ "Suc k"]) simp
  qed
qed

lemma wait_loop_None:
  "wait_loop ps b d n = None \<longleftrightarrow>
   (\<forall>j \<le> length ps. blocked (foldl (\<lambda>x p. p x) (b, d) (take j ps)))"
proof (induction ps arbitrary: b d n)
  case Nil
  then show ?case by (simp add: blocked_def)
next
  case (Cons p ps)
  show ?case
  proof (cases "blocked (b, d)")
    case False
    then have "wait_loop (p # ps) b d n \<noteq> None"
      by (auto simp: blocked_def)
    moreover have "\<not> (\<forall>j \<le> length (p # ps). blocked (foldl (\<lambda>x p. p x) (b, d) (take j (p # ps))))"
      using False by (intro notI) (drule spec [of _ 0], simp)
    ultimately show ?thesis by blast
  next
    case True
    then have "wait_loop (p # ps) b d n = wait_loop ps (fst (p (b, d))) (snd (p (b, d))) (n + 10000)"
      by (simp add: blocked_def)
    moreover have "(\<forall>j \<le> length (p # ps). blocked (foldl (\<lambda>x p. p x) (b, d) (take j (p # ps))))
        \<longleftrightarrow> (\<forall>j \<le> length ps. blocked (foldl (\<lambda>x p. p x) (p (b, d)) (take j ps)))"
    proof
      assume a: "\<forall>j \<le> length (p # ps). blocked (foldl (\<lambda>x p. p x) (b, d) (take j (p # ps)))"
      show "\<forall>j \<le> length ps. blocked (foldl (\<lambda>x p. p x) (p (b, d)) (take j ps))"
      proof (intro allI impI)
        fix j assume "j \<le> length ps"
        then show "blocked (foldl (\<lambda>x p. p x) (p (b, d)) (take j ps))"
          using a [rule_format, of "Suc j"] by simp
      qed
    next
      assume a: "\<forall>j \<le> length ps. blocked (foldl (\<lambda>x p. p x) (p (b, d)) (take j ps))"
      show "\<forall>j \<le> length (p # ps). blocked (foldl (\<lambda>x p. p x) (b, d) (take j (p # ps)))"
      proof (intro allI impI)
        fix j assume "j \<le> length (p # ps)"
        then show "blocked (foldl (\<lambda>x p. p x) (b, d) (take j (p # ps)))"
          using True a by (cases j) simp_all
      qed
    qed
    ultimately show ?thesis
      using Cons.IH [of "fst (p (b, d))" "snd (p (b, d))" "n + 10000"] by simp
  qed
qed

lemma ogg_wait_trace:
  assumes "ogg_wait s = Some t"
  shows "\<exists>k \<le> length (player s). player t = drop k (player s)
      \<and> slept t = slept s + 10000 * k
      \<and> (cb t, dc t) = played k s
      \<and> (\<forall>j < k. blocked (played j s))"
proof -
  obtain b d ps n where w: "wait_loop (player s) (cb s) (dc s) (slept s) = Some (b, d, ps, n)"
    and t: "t = s\<lparr>cb := b, dc := d, player := ps, slept := n\<rparr>"
    using assms by (auto simp: ogg_wait_def split: option.splits)
  from wait_loop_trace [OF w] show ?thesis
    unfolding played_def using t by auto
qed

lemma ogg_wait_None:
  "ogg_wait s = None \<longleftrightarrow> (\<forall>j \<le> length (player s). blocked (played j s))"
  using wait_loop_None [of "player s" "cb s" "dc s" "slept s"]
  by (auto simp: ogg_wait_def played_def split: option.splits)

lemma ogg_read_shared:
  "cb (ogg_read g s) = cb s \<and> dc (ogg_read g s) = dc s \<and> player (ogg_read g s) = player s
   \<and> slept (ogg_read g s) = slept s"
  by (auto simp: ogg_read_def Let_def split: prod.splits)

lemma ogg_seek_shared:
  "player (ogg_seek s) = player s \<and> slept (ogg_seek s) = slept s
   \<and> cb (ogg_seek s) = (if seek (dc s) then (cb s)\<lparr>cb_end := cb_begin (cb s), wrap := False\<rparr>
                         else cb s)"
  by (simp add: ogg_seek_def)

text \<open>The bytes that a push copies into the slot at \<open>end\<close>, and the bytes it leaves alone.\<close>

lemma ogg_push_bytes:
  assumes "cb_end (cb t) * CHUNK_SIZE g + nat (chunkpos t) \<le> length (chunks (cb t))"
    and "nat (chunkpos t) \<le> length (chunk t)"
  shows "take (nat (chunkpos t)) (drop (cb_end (cb t) * CHUNK_SIZE g) (chunks (cb (ogg_push g t))))
           = take (nat (chunkpos t)) (chunk t)
       \<and> take (cb_end (cb t) * CHUNK_SIZE g) (chunks (cb (ogg_push g t)))
           = take (cb_end (cb t) * CHUNK_SIZE g) (chunks (cb t))
       \<and> drop (cb_end (cb t) * CHUNK_SIZE g + nat (chunkpos t)) (chunks (cb (ogg_push g t)))
           = drop (cb_end (cb t) * CHUNK_SIZE g + nat (chunkpos t)) (chunks (cb t))"
proof -
  let ?off = "cb_end (cb t) * CHUNK_SIZE g"
  let ?n = "nat (chunkpos t)"
  have c: "chunks (cb (ogg_push g t))
           = take ?off (chunks (cb t)) @ take ?n (chunk t) @ drop (?off + ?n) (chunks (cb t))"
    using assms(2) by (simp add: ogg_push_def Let_def memcpy_def poke_def min_def)
  have l1: "length (take ?off (chunks (cb t))) = ?off"
    using assms(1) by simp
  have l2: "length (take ?n (chunk t)) = ?n"
    using assms(2) by simp
  show ?thesis
    unfolding c using l1 l2 by (simp add: drop_append)
qed

text \<open>
  A negative result of \<open>ov_read\<close> ends the loop like the end of the stream does: the
  iteration that reads it is the last one.
\<close>

lemma ogg_loop_fault:
  assumes "\<not> eof s" and "packets (vf s) = Fault e # rest"
  shows "(ogg_wait (ogg_read g (ogg_seek s)) = None \<longrightarrow> ogg_loop g s = None)
       \<and> (\<forall>t. ogg_wait (ogg_read g (ogg_seek s)) = Some t \<longrightarrow>
             ogg_loop g s = Some (if stop (dc t) \<or> seek (dc t) then t else ogg_push g t)
             \<and> packets (vf t) = rest
             \<and> packets (vf (ogg_push g t)) = rest)"
proof -
  let ?s2 = "ogg_read g (ogg_seek s)"
  have "ov_code e \<le> 0" by (cases e) simp_all
  moreover have pk: "packets (vf (ogg_seek s)) = Fault e # rest"
    using assms(2) ogg_seek_frame [of s] by simp
  ultimately have rd: "eof ?s2" "packets (vf ?s2) = rest"
    by (simp_all add: ogg_read_def ov_read_def Let_def)
  then have it: "ogg_iteration g s = ogg_boundary g ?s2"
    by (simp add: ogg_iteration_def Let_def)
  have none: "ogg_loop g s = None" if "ogg_wait ?s2 = None"
    using that assms(1) it by (subst ogg_loop.simps) (simp add: ogg_boundary_def)
  have some: "ogg_loop g s = Some (if stop (dc t) \<or> seek (dc t) then t else ogg_push g t)
             \<and> packets (vf t) = rest \<and> packets (vf (ogg_push g t)) = rest"
    if w: "ogg_wait ?s2 = Some t" for t
  proof -
    have fr: "eof t" "packets (vf t) = rest"
      using ogg_wait_frame [OF w] rd by simp_all
    have pf: "eof (ogg_push g t)" "packets (vf (ogg_push g t)) = rest"
      using fr ogg_push_frame [of g t] by simp_all
    show ?thesis
    proof (cases "stop (dc t)")
      case True
      then have "ogg_iteration g s = Some (Broke, t)"
        using it w by (simp add: ogg_boundary_def)
      then show ?thesis
        using True assms(1) fr pf by (simp add: ogg_loop_broke)
    next
      case False
      show ?thesis
      proof (cases "seek (dc t)")
        case True
        then have "ogg_iteration g s = Some (Again, t)"
          using it w False by (simp add: ogg_boundary_def)
        then have "ogg_loop g s = Some t"
          using assms(1) fr by (rule_tac ogg_loop_last) simp_all
        then show ?thesis
          using True fr pf by simp
      next
        case nosk: False
        then have "ogg_iteration g s = Some (Pushed, ogg_push g t)"
          using it w False by (simp add: ogg_boundary_def)
        then have "ogg_loop g s = Some (ogg_push g t)"
          using assms(1) pf by (rule_tac ogg_loop_last) simp_all
        then show ?thesis
          using False nosk fr pf by simp
      qed
    qed
  qed
  show ?thesis
    using none some by blast
qed

section \<open>The claims about the decoder loop\<close>

text \<open>
  Claim C1, as amended. Every push advances \<open>end\<close> modulo \<open>buffered_chunks\<close> and
  leaves \<open>begin\<close> alone. It sets \<open>wrap\<close> exactly when \<open>end\<close> wraps around to
  index 0, wherever \<open>begin\<close> is; otherwise \<open>wrap\<close> keeps its value.
\<close>

theorem ogg_push_advances_end:
  assumes "cb_end (cb s) < buffered_chunks g"
  shows "cb_end (cb (ogg_push g s)) = (cb_end (cb s) + 1) mod buffered_chunks g
       \<and> (wrap (cb (ogg_push g s)) \<longleftrightarrow>
            wrap (cb s) \<or> cb_end (cb (ogg_push g s)) = 0)
       \<and> (cb_end (cb (ogg_push g s)) = 0 \<longleftrightarrow> cb_end (cb s) + 1 = buffered_chunks g)
       \<and> cb_begin (cb (ogg_push g s)) = cb_begin (cb s)"
proof (cases "Suc (cb_end (cb s)) \<ge> buffered_chunks g")
  case True
  with assms have "Suc (cb_end (cb s)) = buffered_chunks g" by simp
  then show ?thesis by (simp add: ogg_push_def Let_def)
next
  case False
  then show ?thesis by (simp add: ogg_push_def Let_def)
qed

theorem ogg_push_advances_end_witness:
  "cb_end (cb (ogg_push four_chunks (at_work (ring 2 3 False) (control False False) [] [1, 2]))) = 0
   \<and> wrap (cb (ogg_push four_chunks (at_work (ring 2 3 False) (control False False) [] [1, 2])))
   \<and> cb_begin (cb (ogg_push four_chunks (at_work (ring 2 3 False) (control False False) [] [1, 2]))) = 2"
proof -
  have h: "cb_end (cb (at_work (ring 2 3 False) (control False False) [] [1, 2]))
           < buffered_chunks four_chunks"
    by (simp add: at_work_def ring_def four_chunks_def)
  show ?thesis
    using ogg_push_advances_end [OF h]
    by (simp add: at_work_def ring_def four_chunks_def)
qed

text \<open>
  C1 as stated fails: with \<open>begin = 2\<close> and \<open>end = 3\<close> in a ring of four, the push
  sets \<open>wrap\<close> although the new \<open>end\<close>, 0, is not \<open>begin\<close>.
\<close>

theorem ogg_push_wrap_counterexample:
  "\<not> wrap (cb (at_work (ring 2 3 False) (control False False) [] [1, 2]))
   \<and> wrap (cb (ogg_push four_chunks (at_work (ring 2 3 False) (control False False) [] [1, 2])))
   \<and> cb_end (cb (ogg_push four_chunks (at_work (ring 2 3 False) (control False False) [] [1, 2])))
       \<noteq> cb_begin (cb (ogg_push four_chunks (at_work (ring 2 3 False) (control False False) [] [1, 2])))"
  by (simp add: ogg_push_def at_work_def ring_def four_chunks_def Let_def)

text \<open>
  Claim C2, as amended. A seek that is pending at the head of an iteration drops the
  partial chunk, empties the ring by moving \<open>end\<close> to \<open>begin\<close> and clearing
  \<open>wrap\<close> (\<open>begin\<close>, the player's cursor, stays where it is), repositions the codec
  to \<open>seekWhere\<close> and clears the flag; the iteration repositions the codec once.
\<close>

theorem ogg_seek_empties_buffer:
  assumes "seek (dc s)"
  shows "chunkpos (ogg_seek s) = 0
       \<and> cb_end (cb (ogg_seek s)) = cb_begin (cb s)
       \<and> cb_begin (cb (ogg_seek s)) = cb_begin (cb s)
       \<and> \<not> wrap (cb (ogg_seek s))
       \<and> seeks (vf (ogg_seek s)) = seekWhere (dc s) # seeks (vf s)
       \<and> ov_time_tell (vf (ogg_seek s)) = seekWhere (dc s)
       \<and> \<not> seek (dc (ogg_seek s))
       \<and> (\<forall>w t. ogg_iteration g s = Some (w, t) \<longrightarrow>
             seeks (vf t) = seekWhere (dc s) # seeks (vf s))"
proof -
  have "seeks (vf t) = seekWhere (dc s) # seeks (vf s)"
    if "ogg_iteration g s = Some (w, t)" for w t
  proof -
    have "vf t = vf (ogg_read g (ogg_seek s))"
      using that ogg_boundary_frame [of g "ogg_read g (ogg_seek s)" w t]
      by (auto simp: ogg_iteration_def Let_def split: if_splits)
    then show ?thesis
      using assms by (simp add: ogg_read_seeks ogg_seek_def ov_time_seek_page_def)
  qed
  then show ?thesis
    using assms by (simp add: ogg_seek_def ov_time_seek_page_def ov_time_tell_def)
qed

theorem ogg_seek_empties_buffer_witness:
  "chunkpos (ogg_seek (at_work (ring 2 3 False) (control False True) [] [1])) = 0
   \<and> cb_end (cb (ogg_seek (at_work (ring 2 3 False) (control False True) [] [1]))) = 2
   \<and> seeks (vf (ogg_seek (at_work (ring 2 3 False) (control False True) [] [1]))) = [42]
   \<and> \<not> seek (dc (ogg_seek (at_work (ring 2 3 False) (control False True) [] [1])))
   \<and> seeks (vf (snd (the (ogg_iteration four_chunks
                             (at_work (ring 2 3 False) (control False True) [] [1]))))) = [42]"
proof -
  let ?s = "at_work (ring 2 3 False) (control False True) [] [1]"
  have h: "seek (dc ?s)"
    by (simp add: at_work_def control_def)
  have it: "ogg_iteration four_chunks ?s
            = Some (Pushed, snd (the (ogg_iteration four_chunks ?s)))"
    by (simp add: ogg_iteration_def ogg_boundary_def ogg_wait_def ogg_read_def ov_read_def
        ogg_seek_def ov_time_seek_page_def at_work_def ring_def control_def four_chunks_def
        empty_stream_def Let_def)
  show ?thesis
    using ogg_seek_empties_buffer [OF h, of four_chunks] it
    by (simp add: at_work_def ring_def control_def empty_stream_def)
qed

text \<open>
  C2 as stated fails: the cursors are not set to 0. From \<open>begin = 2\<close> and
  \<open>end = 3\<close> the seek leaves both at 2.
\<close>

theorem ogg_seek_reset_counterexample:
  "seek (dc (at_work (ring 2 3 False) (control False True) [] [1]))
   \<and> cb_begin (cb (ogg_seek (at_work (ring 2 3 False) (control False True) [] [1]))) = 2
   \<and> cb_end (cb (ogg_seek (at_work (ring 2 3 False) (control False True) [] [1]))) = 2"
  by (simp add: ogg_seek_def at_work_def ring_def control_def)

text \<open>
  Claim C3, as amended. Stop wins over seek where the loop tests both, at the chunk
  boundary (lines 143 to 149): when the wait ends with both requests pending, the
  loop is left with the codec where it was and nothing pushed, and the code after
  the loop drops the seek request. (At the head of an iteration only the seek flag
  is read, and a pending seek is carried out there whether or not stop is set.)
\<close>

theorem stop_wins_at_chunk_boundary:
  assumes "ogg_wait s = Some t" and "stop (dc t)" and "seek (dc t)"
  shows "ogg_boundary g s = Some (Broke, t)
       \<and> vf t = vf s
       \<and> (\<forall>s0. \<not> eof s0 \<and> ogg_iteration g s0 = Some (Broke, t) \<longrightarrow>
             ogg_loop g s0 = Some t)
       \<and> seeks (vf (ogg_finish t)) = seeks (vf s)
       \<and> \<not> seek (dc (ogg_finish t))
       \<and> state (dc (ogg_finish t)) = DECODE_STATE_STOP"
  using assms ogg_wait_frame [OF assms(1)]
  by (auto simp: ogg_boundary_def ogg_loop_broke ogg_finish_def ov_clear_def Let_def)

theorem stop_wins_at_chunk_boundary_witness:
  "ogg_boundary four_chunks
     (waiting (at_work (ring 2 2 True) (control False False) [] [1, 2]) [both_requests]
        \<lparr>eof := True\<rparr>)
   = Some (Broke,
       (at_work (ring 2 2 True) (control True True) [] [1, 2])\<lparr>eof := True, slept := 10000\<rparr>)
   \<and> ogg_loop four_chunks
        (waiting (at_work (ring 2 2 True) (control False False) [] [1, 2]) [both_requests])
     = Some ((at_work (ring 2 2 True) (control True True) [] [1, 2])
               \<lparr>eof := True, slept := 10000\<rparr>)
   \<and> seeks (vf (ogg_finish ((at_work (ring 2 2 True) (control True True) [] [1, 2])
                               \<lparr>eof := True, slept := 10000\<rparr>))) = []"
proof -
  let ?s0 = "waiting (at_work (ring 2 2 True) (control False False) [] [1, 2]) [both_requests]"
  let ?t = "(at_work (ring 2 2 True) (control True True) [] [1, 2])\<lparr>eof := True, slept := 10000\<rparr>"
  have rd: "ogg_read four_chunks (ogg_seek ?s0) = ?s0\<lparr>eof := True\<rparr>"
    by (simp add: ogg_read_def ogg_seek_def ov_read_def waiting_def at_work_def control_def
        empty_stream_def poke_def)
  have h: "ogg_wait (?s0\<lparr>eof := True\<rparr>) = Some ?t"
    by (simp add: ogg_wait_def waiting_def at_work_def ring_def control_def both_requests_def)
  have st: "stop (dc ?t)" and sk: "seek (dc ?t)"
    by (simp_all add: at_work_def control_def)
  note fact = stop_wins_at_chunk_boundary [OF h st sk, of four_chunks]
  have it: "ogg_iteration four_chunks ?s0 = Some (Broke, ?t)"
    using fact rd
    by (simp add: ogg_iteration_def Let_def)
  have "\<not> eof ?s0"
    by (simp add: waiting_def at_work_def)
  then show ?thesis
    using fact it by (simp add: waiting_def at_work_def empty_stream_def)
qed

text \<open>
  C3 as stated fails: with both flags set at the head of an iteration the codec is
  repositioned to 42 before the loop is left at the next chunk boundary.
\<close>

theorem seek_before_stop_counterexample:
  "stop (dc (at_work (ring 2 3 False) (control True True) [Pcm [7, 8] 5 128000] []))
   \<and> seek (dc (at_work (ring 2 3 False) (control True True) [Pcm [7, 8] 5 128000] []))
   \<and> seeks (vf (at_work (ring 2 3 False) (control True True) [Pcm [7, 8] 5 128000] [])) = []
   \<and> map_option (\<lambda>s. seeks (vf s))
        (ogg_loop four_chunks
           (at_work (ring 2 3 False) (control True True) [Pcm [7, 8] 5 128000] []))
      = Some [42]"
  by code_simp


text \<open>
  Claim C4. Every iteration of the decoder loop is one of four: it only fills the
  scratch chunk; or it waits at the chunk boundary and then leaves the loop (stop
  pending), starts over (seek pending), or pushes. In the last three the ring buffer
  and the control block after the wait are what the player made of them during the
  sleeps of 10000 microseconds each, and every state before the last one was blocked
  (ring full, no request). The iteration writes into the ring only in the fourth
  case, and then the ring is not full. Before the wait the iteration touches the
  ring only to empty it for a seek. While the ring is full and no request is
  pending the decoder sleeps, lets the player act and tests again; the wait never
  ends exactly when every state the player brings about is blocked.
\<close>

theorem no_push_into_full_buffer:
  "(ogg_iteration g s = Some (w, s') \<longrightarrow>
      (w = Filling \<and> s' = ogg_read g (ogg_seek s))
      \<or> (\<exists>t k. ogg_wait (ogg_read g (ogg_seek s)) = Some t
            \<and> k \<le> length (player s)
            \<and> (cb t, dc t) = played k (ogg_read g (ogg_seek s))
            \<and> (\<forall>j < k. blocked (played j (ogg_read g (ogg_seek s))))
            \<and> slept t = slept s + 10000 * k
            \<and> (w = Broke \<and> stop (dc t) \<and> s' = t
               \<or> w = Again \<and> \<not> stop (dc t) \<and> seek (dc t) \<and> s' = t
               \<or> w = Pushed \<and> \<not> stop (dc t) \<and> \<not> seek (dc t)
                 \<and> \<not> (cb_begin (cb t) = cb_end (cb t) \<and> wrap (cb t))
                 \<and> s' = ogg_push g t)))
   \<and> cb (ogg_read g (ogg_seek s))
       = (if seek (dc s) then (cb s)\<lparr>cb_end := cb_begin (cb s), wrap := False\<rparr> else cb s)
   \<and> (cb_begin (cb s) = cb_end (cb s) \<and> wrap (cb s) \<and> \<not> stop (dc s) \<and> \<not> seek (dc s) \<longrightarrow>
        ogg_boundary g s =
          (case player s of
             [] \<Rightarrow> None
           | p # ps \<Rightarrow>
               ogg_boundary g
                 (s\<lparr>cb := fst (p (cb s, dc s)), dc := snd (p (cb s, dc s)),
                    player := ps, slept := slept s + 10000\<rparr>)))
   \<and> (ogg_boundary g s = None \<longleftrightarrow> (\<forall>j \<le> length (player s). blocked (played j s)))"
proof (intro conjI impI)
  assume it: "ogg_iteration g s = Some (w, s')"
  let ?s2 = "ogg_read g (ogg_seek s)"
  have sh: "player ?s2 = player s" "slept ?s2 = slept s"
    using ogg_read_shared [of g "ogg_seek s"] ogg_seek_shared [of s] by simp_all
  show "(w = Filling \<and> s' = ?s2)
      \<or> (\<exists>t k. ogg_wait ?s2 = Some t
            \<and> k \<le> length (player s)
            \<and> (cb t, dc t) = played k ?s2
            \<and> (\<forall>j < k. blocked (played j ?s2))
            \<and> slept t = slept s + 10000 * k
            \<and> (w = Broke \<and> stop (dc t) \<and> s' = t
               \<or> w = Again \<and> \<not> stop (dc t) \<and> seek (dc t) \<and> s' = t
               \<or> w = Pushed \<and> \<not> stop (dc t) \<and> \<not> seek (dc t)
                 \<and> \<not> (cb_begin (cb t) = cb_end (cb t) \<and> wrap (cb t))
                 \<and> s' = ogg_push g t))"
  proof (cases "chunkpos ?s2 \<ge> int (CHUNK_SIZE g) \<or> eof ?s2")
    case False
    then show ?thesis
      using it by (simp add: ogg_iteration_def Let_def)
  next
    case True
    then have "ogg_boundary g ?s2 = Some (w, s')"
      using it by (simp add: ogg_iteration_def Let_def)
    then obtain t where t: "ogg_wait ?s2 = Some t"
      and ways: "w = Broke \<and> stop (dc t) \<and> s' = t
         \<or> w = Again \<and> \<not> stop (dc t) \<and> seek (dc t) \<and> s' = t
         \<or> w = Pushed \<and> \<not> stop (dc t) \<and> \<not> seek (dc t) \<and> s' = ogg_push g t"
      by (rule ogg_boundary_cases)
    from ogg_wait_trace [OF t] obtain k where k: "k \<le> length (player s)"
        "slept t = slept s + 10000 * k" "(cb t, dc t) = played k ?s2"
        "\<forall>j < k. blocked (played j ?s2)"
      using sh by auto
    have "\<not> (cb_begin (cb t) = cb_end (cb t) \<and> wrap (cb t))"
      if "\<not> stop (dc t)" "\<not> seek (dc t)"
      using ogg_wait_ready [OF t] that by blast
    with ways have "w = Broke \<and> stop (dc t) \<and> s' = t
               \<or> w = Again \<and> \<not> stop (dc t) \<and> seek (dc t) \<and> s' = t
               \<or> w = Pushed \<and> \<not> stop (dc t) \<and> \<not> seek (dc t)
                 \<and> \<not> (cb_begin (cb t) = cb_end (cb t) \<and> wrap (cb t))
                 \<and> s' = ogg_push g t"
      by blast
    with t k show ?thesis by blast
  qed
next
  show "cb (ogg_read g (ogg_seek s))
       = (if seek (dc s) then (cb s)\<lparr>cb_end := cb_begin (cb s), wrap := False\<rparr> else cb s)"
    using ogg_read_shared [of g "ogg_seek s"] ogg_seek_shared [of s] by simp
next
  assume "cb_begin (cb s) = cb_end (cb s) \<and> wrap (cb s) \<and> \<not> stop (dc s) \<and> \<not> seek (dc s)"
  then show "ogg_boundary g s =
          (case player s of
             [] \<Rightarrow> None
           | p # ps \<Rightarrow>
               ogg_boundary g
                 (s\<lparr>cb := fst (p (cb s, dc s)), dc := snd (p (cb s, dc s)),
                    player := ps, slept := slept s + 10000\<rparr>))"
    by (cases "player s") (auto simp: ogg_boundary_def ogg_wait_def split: option.splits)
next
  show "ogg_boundary g s = None \<longleftrightarrow> (\<forall>j \<le> length (player s). blocked (played j s))"
  proof -
    have "ogg_boundary g s = None \<longleftrightarrow> ogg_wait s = None"
      by (simp add: ogg_boundary_def split: option.splits)
    then show ?thesis
      by (simp only: ogg_wait_None)
  qed
qed

theorem no_push_into_full_buffer_witness:
  "ogg_iteration four_chunks
     (waiting (at_work (ring 2 2 True) (control False False) [] [1, 2]) [consume])
   = Some (Pushed,
       ogg_push four_chunks
         ((at_work (ring 3 2 True) (control False False) [] [1, 2])
            \<lparr>slept := 10000, eof := True\<rparr>))
   \<and> (\<exists>t. ogg_wait (ogg_read four_chunks (ogg_seek
               (waiting (at_work (ring 2 2 True) (control False False) [] [1, 2]) [consume])))
            = Some t
          \<and> \<not> (cb_begin (cb t) = cb_end (cb t) \<and> wrap (cb t))
          \<and> ogg_push four_chunks
               ((at_work (ring 3 2 True) (control False False) [] [1, 2])
                  \<lparr>slept := 10000, eof := True\<rparr>)
            = ogg_push four_chunks t)
   \<and> ogg_boundary four_chunks
        (waiting (at_work (ring 2 2 True) (control False False) [] [1, 2]) [consume])
     = Some (Pushed,
         ogg_push four_chunks
           ((at_work (ring 3 2 True) (control False False) [] [1, 2])\<lparr>slept := 10000\<rparr>))
   \<and> (\<exists>j \<le> 1. \<not> blocked (played j
          (waiting (at_work (ring 2 2 True) (control False False) [] [1, 2]) [consume])))"
proof -
  define s where "s = waiting (at_work (ring 2 2 True) (control False False) [] [1, 2]) [consume]"
  define t where "t = (at_work (ring 3 2 True) (control False False) [] [1, 2])\<lparr>slept := 10000\<rparr>"
  define s' where "s' = ogg_push four_chunks (t\<lparr>eof := True\<rparr>)"
  have it: "ogg_iteration four_chunks s = Some (Pushed, s')"
    unfolding s_def s'_def t_def
    by (simp add: ogg_iteration_def ogg_boundary_def ogg_wait_def ogg_read_def ov_read_def
        ogg_seek_def waiting_def at_work_def ring_def control_def consume_def four_chunks_def
        empty_stream_def poke_def Let_def)
  have full: "cb_begin (cb s) = cb_end (cb s) \<and> wrap (cb s) \<and> \<not> stop (dc s) \<and> \<not> seek (dc s)"
    unfolding s_def by (simp add: waiting_def at_work_def ring_def control_def)
  have pl: "player s = [consume]"
    unfolding s_def by (simp add: waiting_def)
  have after: "ogg_boundary four_chunks
                 (s\<lparr>cb := fst (consume (cb s, dc s)), dc := snd (consume (cb s, dc s)),
                     player := [], slept := slept s + 10000\<rparr>)
               = Some (Pushed, ogg_push four_chunks t)"
    unfolding s_def t_def
    by (simp add: ogg_boundary_def ogg_wait_def waiting_def at_work_def ring_def control_def
        consume_def)
  note fact = no_push_into_full_buffer [of four_chunks s Pushed s']
  have one: "\<exists>u. ogg_wait (ogg_read four_chunks (ogg_seek s)) = Some u
           \<and> \<not> (cb_begin (cb u) = cb_end (cb u) \<and> wrap (cb u))
           \<and> s' = ogg_push four_chunks u"
    using fact [THEN conjunct1, THEN mp, OF it] by auto
  have "ogg_boundary four_chunks s
        = (case player s of [] \<Rightarrow> None
           | p # ps \<Rightarrow> ogg_boundary four_chunks
               (s\<lparr>cb := fst (p (cb s, dc s)), dc := snd (p (cb s, dc s)),
                   player := ps, slept := slept s + 10000\<rparr>))"
    by (rule fact [THEN conjunct2, THEN conjunct2, THEN conjunct1, THEN mp, OF full])
  then have two: "ogg_boundary four_chunks s = Some (Pushed, ogg_push four_chunks t)"
    by (simp only: pl list.case after)
  then have "ogg_boundary four_chunks s \<noteq> None"
    by simp
  then have "\<not> (\<forall>j \<le> length (player s). blocked (played j s))"
    using fact [THEN conjunct2, THEN conjunct2, THEN conjunct2] by simp
  then have three: "\<exists>j \<le> 1. \<not> blocked (played j s)"
    by (simp add: pl)
  have "ogg_iteration four_chunks s = Some (Pushed, s')
      \<and> (\<exists>u. ogg_wait (ogg_read four_chunks (ogg_seek s)) = Some u
           \<and> \<not> (cb_begin (cb u) = cb_end (cb u) \<and> wrap (cb u))
           \<and> s' = ogg_push four_chunks u)
      \<and> ogg_boundary four_chunks s = Some (Pushed, ogg_push four_chunks t)
      \<and> (\<exists>j \<le> 1. \<not> blocked (played j s))"
    using it one two three by (intro conjI)
  then show ?thesis
    unfolding s_def s'_def t_def .
qed

text \<open>
  Claim C5, as amended. When the read reports the end of the stream, the loop waits
  for a free slot. With neither stop nor seek pending after the wait and bytes left
  in the scratch chunk, it copies exactly these bytes, however few, into the slot at
  \<open>end\<close>, records their number, leaves the other bytes of the ring alone, advances
  \<open>end\<close> and ends. With stop pending, or with seek pending, the loop ends with the
  ring as the wait left it: the bytes are not pushed. In all three cases the state
  then becomes STOP.
\<close>

theorem final_chunk_at_end_of_stream:
  assumes "\<not> eof s"
    and "eof (ogg_read g (ogg_seek s))"
    and "ogg_wait (ogg_read g (ogg_seek s)) = Some t"
  shows "(\<not> stop (dc t) \<and> \<not> seek (dc t) \<and> 0 < chunkpos (ogg_read g (ogg_seek s))
          \<and> cb_end (cb t) < length (chunkSize (cb t))
          \<and> cb_end (cb t) * CHUNK_SIZE g + nat (chunkpos (ogg_read g (ogg_seek s)))
              \<le> length (chunks (cb t))
          \<and> nat (chunkpos (ogg_read g (ogg_seek s))) \<le> length (chunk (ogg_read g (ogg_seek s)))
        \<longrightarrow>
          ogg_iteration g s = Some (Pushed, ogg_push g t)
          \<and> ogg_loop g s = Some (ogg_push g t)
          \<and> chunkSize (cb (ogg_push g t)) ! cb_end (cb t) = chunkpos (ogg_read g (ogg_seek s))
          \<and> take (nat (chunkpos (ogg_read g (ogg_seek s))))
                (drop (cb_end (cb t) * CHUNK_SIZE g) (chunks (cb (ogg_push g t))))
              = take (nat (chunkpos (ogg_read g (ogg_seek s)))) (chunk (ogg_read g (ogg_seek s)))
          \<and> take (cb_end (cb t) * CHUNK_SIZE g) (chunks (cb (ogg_push g t)))
              = take (cb_end (cb t) * CHUNK_SIZE g) (chunks (cb t))
          \<and> drop (cb_end (cb t) * CHUNK_SIZE g + nat (chunkpos (ogg_read g (ogg_seek s))))
                (chunks (cb (ogg_push g t)))
              = drop (cb_end (cb t) * CHUNK_SIZE g + nat (chunkpos (ogg_read g (ogg_seek s))))
                  (chunks (cb t))
          \<and> cb_end (cb (ogg_push g t))
              = (if Suc (cb_end (cb t)) \<ge> buffered_chunks g then 0 else Suc (cb_end (cb t)))
          \<and> state (dc (ogg_finish (ogg_push g t))) = DECODE_STATE_STOP)
       \<and> (stop (dc t) \<longrightarrow>
             ogg_iteration g s = Some (Broke, t)
             \<and> ogg_loop g s = Some t
             \<and> state (dc (ogg_finish t)) = DECODE_STATE_STOP)
       \<and> (\<not> stop (dc t) \<and> seek (dc t) \<longrightarrow>
             ogg_iteration g s = Some (Again, t)
             \<and> ogg_loop g s = Some t
             \<and> state (dc (ogg_finish t)) = DECODE_STATE_STOP)"
proof (intro conjI impI)
  let ?s2 = "ogg_read g (ogg_seek s)"
  have frame: "eof t = eof ?s2" "chunkpos t = chunkpos ?s2" "chunk t = chunk ?s2"
    using ogg_wait_frame [OF assms(3)] by simp_all
  {
    assume h: "\<not> stop (dc t) \<and> \<not> seek (dc t) \<and> 0 < chunkpos ?s2
          \<and> cb_end (cb t) < length (chunkSize (cb t))
          \<and> cb_end (cb t) * CHUNK_SIZE g + nat (chunkpos ?s2) \<le> length (chunks (cb t))
          \<and> nat (chunkpos ?s2) \<le> length (chunk ?s2)"
    have it: "ogg_iteration g s = Some (Pushed, ogg_push g t)"
      using assms h by (simp add: ogg_iteration_def ogg_boundary_def Let_def)
    then show "ogg_iteration g s = Some (Pushed, ogg_push g t)" .
    have "eof (ogg_push g t)"
      using frame assms(2) by (simp add: ogg_push_frame)
    with it show "ogg_loop g s = Some (ogg_push g t)"
      using assms(1) by (simp add: ogg_loop_last)
    show "chunkSize (cb (ogg_push g t)) ! cb_end (cb t) = chunkpos ?s2"
      using h frame by (simp add: ogg_push_def Let_def)
    have b1: "cb_end (cb t) * CHUNK_SIZE g + nat (chunkpos t) \<le> length (chunks (cb t))"
      and b2: "nat (chunkpos t) \<le> length (chunk t)"
      using h frame by simp_all
    note bytes = ogg_push_bytes [OF b1 b2, unfolded frame]
    show "take (nat (chunkpos ?s2)) (drop (cb_end (cb t) * CHUNK_SIZE g) (chunks (cb (ogg_push g t))))
          = take (nat (chunkpos ?s2)) (chunk ?s2)"
      using bytes by (rule conjunct1)
    show "take (cb_end (cb t) * CHUNK_SIZE g) (chunks (cb (ogg_push g t)))
          = take (cb_end (cb t) * CHUNK_SIZE g) (chunks (cb t))"
      using bytes by (elim conjE)
    show "drop (cb_end (cb t) * CHUNK_SIZE g + nat (chunkpos ?s2)) (chunks (cb (ogg_push g t)))
          = drop (cb_end (cb t) * CHUNK_SIZE g + nat (chunkpos ?s2)) (chunks (cb t))"
      using bytes by (elim conjE)
    show "cb_end (cb (ogg_push g t))
          = (if Suc (cb_end (cb t)) \<ge> buffered_chunks g then 0 else Suc (cb_end (cb t)))"
      by (simp add: ogg_push_def Let_def)
    show "state (dc (ogg_finish (ogg_push g t))) = DECODE_STATE_STOP"
      by (rule ogg_finish_state)
  }
  {
    assume st: "stop (dc t)"
    have it: "ogg_iteration g s = Some (Broke, t)"
      using assms st by (simp add: ogg_iteration_def ogg_boundary_def Let_def)
    then show "ogg_iteration g s = Some (Broke, t)" .
    from it show "ogg_loop g s = Some t"
      using assms(1) by (simp add: ogg_loop_broke)
    show "state (dc (ogg_finish t)) = DECODE_STATE_STOP"
      by (rule ogg_finish_state)
  }
  {
    assume sk: "\<not> stop (dc t) \<and> seek (dc t)"
    have it: "ogg_iteration g s = Some (Again, t)"
      using assms sk by (simp add: ogg_iteration_def ogg_boundary_def Let_def)
    then show "ogg_iteration g s = Some (Again, t)" .
    have "eof t"
      using frame assms(2) by simp
    with it show "ogg_loop g s = Some t"
      using assms(1) by (simp add: ogg_loop_last)
    show "state (dc (ogg_finish t)) = DECODE_STATE_STOP"
      by (rule ogg_finish_state)
  }
qed

theorem final_chunk_at_end_of_stream_witness:
  "ogg_loop four_chunks (at_work (ring 2 3 False) (control False False) [] [1])
   = Some (ogg_push four_chunks
             ((at_work (ring 2 3 False) (control False False) [] [1])\<lparr>eof := True\<rparr>))
   \<and> chunkSize (cb (ogg_push four_chunks
             ((at_work (ring 2 3 False) (control False False) [] [1])\<lparr>eof := True\<rparr>))) ! 3 = 1
   \<and> take 1 (drop 6 (chunks (cb (ogg_push four_chunks
             ((at_work (ring 2 3 False) (control False False) [] [1])\<lparr>eof := True\<rparr>))))) = [1]
   \<and> cb_end (cb (ogg_push four_chunks
             ((at_work (ring 2 3 False) (control False False) [] [1])\<lparr>eof := True\<rparr>))) = 0
   \<and> ogg_loop four_chunks (at_work (ring 2 3 False) (control True False) [] [1])
     = Some ((at_work (ring 2 3 False) (control True False) [] [1])\<lparr>eof := True\<rparr>)"
proof -
  define a where "a = at_work (ring 2 3 False) (control False False) [] [1]"
  define b where "b = at_work (ring 2 3 False) (control True False) [] [1]"
  have rd: "ogg_read four_chunks (ogg_seek a) = a\<lparr>eof := True\<rparr>"
    unfolding a_def
    by (simp add: ogg_read_def ogg_seek_def ov_read_def at_work_def control_def
        empty_stream_def poke_def)
  have rd': "ogg_read four_chunks (ogg_seek b) = b\<lparr>eof := True\<rparr>"
    unfolding b_def
    by (simp add: ogg_read_def ogg_seek_def ov_read_def at_work_def control_def
        empty_stream_def poke_def)
  have a1: "\<not> eof a" and b1: "\<not> eof b"
    unfolding a_def b_def by (simp_all add: at_work_def)
  have a2: "eof (ogg_read four_chunks (ogg_seek a))" and b2: "eof (ogg_read four_chunks (ogg_seek b))"
    by (simp_all add: rd rd')
  have a3: "ogg_wait (ogg_read four_chunks (ogg_seek a)) = Some (a\<lparr>eof := True\<rparr>)"
    unfolding rd unfolding a_def by (simp add: ogg_wait_def at_work_def ring_def)
  have b3: "ogg_wait (ogg_read four_chunks (ogg_seek b)) = Some (b\<lparr>eof := True\<rparr>)"
    unfolding rd' unfolding b_def by (simp add: ogg_wait_def at_work_def ring_def control_def)
  have a4: "\<not> stop (dc (a\<lparr>eof := True\<rparr>)) \<and> \<not> seek (dc (a\<lparr>eof := True\<rparr>))
      \<and> 0 < chunkpos (ogg_read four_chunks (ogg_seek a))
      \<and> cb_end (cb (a\<lparr>eof := True\<rparr>)) < length (chunkSize (cb (a\<lparr>eof := True\<rparr>)))
      \<and> cb_end (cb (a\<lparr>eof := True\<rparr>)) * CHUNK_SIZE four_chunks
           + nat (chunkpos (ogg_read four_chunks (ogg_seek a)))
         \<le> length (chunks (cb (a\<lparr>eof := True\<rparr>)))
      \<and> nat (chunkpos (ogg_read four_chunks (ogg_seek a)))
         \<le> length (chunk (ogg_read four_chunks (ogg_seek a)))"
    unfolding rd unfolding a_def
    by (simp add: at_work_def control_def ring_def four_chunks_def)
  have b4: "stop (dc (b\<lparr>eof := True\<rparr>))"
    unfolding b_def by (simp add: at_work_def control_def)
  note pushed = final_chunk_at_end_of_stream [OF a1 a2 a3, THEN conjunct1, THEN mp, OF a4]
  note stopped = final_chunk_at_end_of_stream [OF b1 b2 b3, THEN conjunct2, THEN conjunct1, THEN mp, OF b4]
  have vals: "cb_end (cb a) = 3" "CHUNK_SIZE four_chunks = 2"
      "buffered_chunks four_chunks = 4"
      "chunkpos (ogg_read four_chunks (ogg_seek a)) = 1"
      "chunk (ogg_read four_chunks (ogg_seek a)) = [1, 0]"
    unfolding rd unfolding a_def by (simp_all add: at_work_def ring_def four_chunks_def)
  have "ogg_loop four_chunks a = Some (ogg_push four_chunks (a\<lparr>eof := True\<rparr>))
      \<and> chunkSize (cb (ogg_push four_chunks (a\<lparr>eof := True\<rparr>))) ! 3 = 1
      \<and> take 1 (drop 6 (chunks (cb (ogg_push four_chunks (a\<lparr>eof := True\<rparr>))))) = [1]
      \<and> cb_end (cb (ogg_push four_chunks (a\<lparr>eof := True\<rparr>))) = 0
      \<and> ogg_loop four_chunks b = Some (b\<lparr>eof := True\<rparr>)"
    using pushed stopped by (simp add: vals del: ogg_loop.simps)
  then show ?thesis
    unfolding a_def b_def .
qed

text \<open>
  C5 as stated fails: with stop pending at the end of the stream the byte left in
  the scratch chunk is not pushed; the ring is as it was.
\<close>

theorem stop_drops_final_chunk_counterexample:
  "chunkpos (at_work (ring 2 3 False) (control True False) [] [1]) = 1
   \<and> packets (vf (at_work (ring 2 3 False) (control True False) [] [1])) = []
   \<and> map_option cb (ogg_loop four_chunks (at_work (ring 2 3 False) (control True False) [] [1]))
     = Some (ring 2 3 False)"
  by code_simp

text \<open>
  Claim C6, as amended. \<open>ogg_decode\<close> reports a failure to open the source or the
  bit stream by returning -1, with the control block and the ring buffer untouched.
  A run that got past the open and returns, returns 0 with the state STOP. A negative
  result of \<open>ov_read\<close> is taken for the end of the stream: the iteration that reads
  it is the last one, nothing more is read from the stream, and after the wait for
  a free slot the scratch chunk is pushed as the final chunk unless stop or seek is
  pending; if that wait never ends, the loop never returns, as in the last run
  below, where the ring is full and the player does nothing. The state ERROR is
  never set.
\<close>

theorem ogg_decode_reports_by_return_value:
  "(disk (dc_file d) = Unreadable \<or> disk (dc_file d) = Garbage \<longrightarrow>
      (\<exists>msg. ogg_decode g disk ps b af d
              = Some \<lparr>returned = -1, out_cb = b, out_af = af, out_dc = d, out_log = [msg]\<rparr>))
   \<and> (ogg_decode g disk ps b af d = Some r \<and> returned r \<noteq> -1 \<longrightarrow>
        returned r = 0 \<and> state (out_dc r) = DECODE_STATE_STOP)
   \<and> (packets (vf s) = Fault e # rest \<longrightarrow>
        eof (ogg_read g s) \<and> chunkpos (ogg_read g s) = chunkpos s
        \<and> packets (vf (ogg_read g s)) = rest)
   \<and> (\<not> eof s \<and> packets (vf s) = Fault e # rest \<longrightarrow>
        (ogg_wait (ogg_read g (ogg_seek s)) = None \<longrightarrow> ogg_loop g s = None)
        \<and> (\<forall>t. ogg_wait (ogg_read g (ogg_seek s)) = Some t \<longrightarrow>
              ogg_loop g s = Some (if stop (dc t) \<or> seek (dc t) then t else ogg_push g t)
              \<and> packets (vf t) = rest
              \<and> packets (vf (ogg_push g t)) = rest
              \<and> state (dc (ogg_finish t)) = DECODE_STATE_STOP
              \<and> state (dc (ogg_finish (ogg_push g t))) = DECODE_STATE_STOP))
   \<and> map_option returned
       (ogg_decode four_chunks (\<lambda>name. Vorbis (empty_stream\<lparr>packets := [Fault OV_HOLE]\<rparr>)) []
          (ring 0 0 True) \<lparr>bits = 0, channels = 0, sampleRate = 0\<rparr> fresh_control) = None"
proof (intro conjI impI)
  assume "disk (dc_file d) = Unreadable \<or> disk (dc_file d) = Garbage"
  then show "\<exists>msg. ogg_decode g disk ps b af d
              = Some \<lparr>returned = -1, out_cb = b, out_af = af, out_dc = d, out_log = [msg]\<rparr>"
    by (auto simp: ogg_decode_def)
next
  assume "ogg_decode g disk ps b af d = Some r \<and> returned r \<noteq> -1"
  then show "returned r = 0" and "state (out_dc r) = DECODE_STATE_STOP"
    by (auto simp: ogg_decode_def ogg_finish_state split: source.splits option.splits)
next
  assume p: "packets (vf s) = Fault e # rest"
  have "ov_code e \<le> 0" by (cases e) simp_all
  with p show "eof (ogg_read g s)" and "chunkpos (ogg_read g s) = chunkpos s"
    and "packets (vf (ogg_read g s)) = rest"
    by (simp_all add: ogg_read_def ov_read_def Let_def)
next
  assume a: "\<not> eof s \<and> packets (vf s) = Fault e # rest"
  assume "ogg_wait (ogg_read g (ogg_seek s)) = None"
  then show "ogg_loop g s = None"
    using ogg_loop_fault [of s e rest g] a by blast
next
  assume a: "\<not> eof s \<and> packets (vf s) = Fault e # rest"
  show "\<forall>t. ogg_wait (ogg_read g (ogg_seek s)) = Some t \<longrightarrow>
              ogg_loop g s = Some (if stop (dc t) \<or> seek (dc t) then t else ogg_push g t)
              \<and> packets (vf t) = rest
              \<and> packets (vf (ogg_push g t)) = rest
              \<and> state (dc (ogg_finish t)) = DECODE_STATE_STOP
              \<and> state (dc (ogg_finish (ogg_push g t))) = DECODE_STATE_STOP"
    using ogg_loop_fault [of s e rest g] a by (simp add: ogg_finish_state del: ogg_loop.simps)
next
  show "map_option returned
       (ogg_decode four_chunks (\<lambda>name. Vorbis (empty_stream\<lparr>packets := [Fault OV_HOLE]\<rparr>)) []
          (ring 0 0 True) \<lparr>bits = 0, channels = 0, sampleRate = 0\<rparr> fresh_control) = None"
    by code_simp
qed

theorem ogg_decode_reports_by_return_value_witness:
  "(\<exists>msg. ogg_decode four_chunks (\<lambda>name. Garbage) [] (ring 0 0 False)
            \<lparr>bits = 0, channels = 0, sampleRate = 0\<rparr> fresh_control
          = Some \<lparr>returned = -1, out_cb = ring 0 0 False,
                  out_af = \<lparr>bits = 0, channels = 0, sampleRate = 0\<rparr>,
                  out_dc = fresh_control, out_log = [msg]\<rparr>)
   \<and> map_option (\<lambda>r. (returned r, state (out_dc r)))
        (ogg_decode four_chunks (\<lambda>name. Vorbis (empty_stream\<lparr>packets := [Fault OV_HOLE]\<rparr>)) []
           (ring 0 0 False) \<lparr>bits = 0, channels = 0, sampleRate = 0\<rparr> fresh_control)
     = Some (0, DECODE_STATE_STOP)
   \<and> eof (ogg_read four_chunks
             (at_work (ring 0 0 False) (control False False) [Fault OV_HOLE] [1]))
   \<and> ogg_loop four_chunks
        (at_work (ring 0 0 False) (control False False) [Fault OV_HOLE, Pcm [8] 0 0] [1])
     = Some (ogg_push four_chunks
               ((at_work (ring 0 0 False) (control False False) [Pcm [8] 0 0] [1])
                  \<lparr>eof := True\<rparr>))"
proof -
  let ?af = "\<lparr>bits = 0, channels = 0, sampleRate = 0\<rparr>"
  let ?disk = "\<lambda>name :: string. Vorbis (empty_stream\<lparr>packets := [Fault OV_HOLE]\<rparr>)"
  let ?run = "ogg_decode four_chunks ?disk [] (ring 0 0 False) ?af fresh_control"
  let ?s = "at_work (ring 0 0 False) (control False False) [Fault OV_HOLE] [1]"
  define a where "a = at_work (ring 0 0 False) (control False False) [Fault OV_HOLE, Pcm [8] 0 0] [1]"
  define t where "t = (at_work (ring 0 0 False) (control False False) [Pcm [8] 0 0] [1])\<lparr>eof := True\<rparr>"
  have "?run \<noteq> None"
    by code_simp
  then obtain r where r: "?run = Some r"
    by blast
  have "returned (the ?run) \<noteq> -1"
    by code_simp
  then have ok: "?run = Some r \<and> returned r \<noteq> -1"
    by (simp add: r)
  have pk: "packets (vf ?s) = Fault OV_HOLE # []"
    by (simp add: at_work_def)
  have bad: "(\<lambda>name :: string. Garbage) (dc_file fresh_control) = Unreadable
           \<or> (\<lambda>name :: string. Garbage) (dc_file fresh_control) = Garbage"
    by simp
  have one: "\<exists>msg. ogg_decode four_chunks (\<lambda>name. Garbage) [] (ring 0 0 False) ?af fresh_control
          = Some \<lparr>returned = -1, out_cb = ring 0 0 False, out_af = ?af,
                  out_dc = fresh_control, out_log = [msg]\<rparr>"
    by (rule ogg_decode_reports_by_return_value
               [of "\<lambda>name. Garbage" fresh_control four_chunks "[]" "ring 0 0 False" ?af,
                THEN conjunct1, THEN mp, OF bad])
  have two: "returned r = 0 \<and> state (out_dc r) = DECODE_STATE_STOP"
    by (rule ogg_decode_reports_by_return_value
               [of ?disk fresh_control four_chunks "[]" "ring 0 0 False" ?af r,
                THEN conjunct2, THEN conjunct1, THEN mp, OF ok])
  have three: "eof (ogg_read four_chunks ?s) \<and> chunkpos (ogg_read four_chunks ?s) = chunkpos ?s
               \<and> packets (vf (ogg_read four_chunks ?s)) = []"
    by (rule ogg_decode_reports_by_return_value
               [of ?disk fresh_control four_chunks "[]" "ring 0 0 False" ?af r ?s OV_HOLE "[]",
                THEN conjunct2, THEN conjunct2, THEN conjunct1, THEN mp, OF pk])
  have a1: "\<not> eof a \<and> packets (vf a) = Fault OV_HOLE # [Pcm [8] 0 0]"
    unfolding a_def by (simp add: at_work_def)
  have a2: "ogg_wait (ogg_read four_chunks (ogg_seek a)) = Some t"
    unfolding a_def t_def
    by (simp add: ogg_wait_def ogg_read_def ogg_seek_def ov_read_def at_work_def ring_def
        control_def empty_stream_def poke_def)
  have a3: "\<not> (stop (dc t) \<or> seek (dc t))"
    unfolding t_def by (simp add: at_work_def control_def)
  have "ogg_loop four_chunks a
        = Some (if stop (dc t) \<or> seek (dc t) then t else ogg_push four_chunks t)"
    using ogg_decode_reports_by_return_value [of ?disk fresh_control four_chunks "[]" "ring 0 0 False" ?af r a OV_HOLE
                 "[Pcm [8] 0 0]",
              THEN conjunct2, THEN conjunct2, THEN conjunct2, THEN conjunct1, THEN mp, OF a1,
              THEN conjunct2, THEN spec, THEN mp, OF a2]
    by (rule conjunct1)
  then have four: "ogg_loop four_chunks a = Some (ogg_push four_chunks t)"
    by (simp only: a3 if_False)
  have "map_option (\<lambda>r. (returned r, state (out_dc r))) ?run = Some (0, DECODE_STATE_STOP)"
    by (simp only: r option.map two)
  then show ?thesis
    using one three four [unfolded a_def t_def] by (intro conjI) simp_all
qed

text \<open>
  C6 as stated fails twice: after a failed open the state is still START, not
  ERROR; and after a fault in the middle of a stream the state is STOP and the byte
  decoded before the fault has been pushed, as a chunk of size 1, after the fault was
  read.
\<close>

theorem open_failure_state_counterexample:
  "map_option (\<lambda>r. state (out_dc r))
     (ogg_decode four_chunks (\<lambda>name. Unreadable) [] (ring 0 0 False)
        \<lparr>bits = 0, channels = 0, sampleRate = 0\<rparr> fresh_control)
   = Some DECODE_STATE_START
   \<and> map_option (\<lambda>r. (state (out_dc r), cb_end (out_cb r), chunkSize (out_cb r)))
       (ogg_decode four_chunks
          (\<lambda>name. Vorbis (empty_stream\<lparr>packets := [Pcm [7] 5 0, Fault OV_HOLE, Pcm [8, 9] 6 0]\<rparr>))
          [] (ring 0 0 False) \<lparr>bits = 0, channels = 0, sampleRate = 0\<rparr> fresh_control)
     = Some (DECODE_STATE_STOP, 1, [1, 0, 0, 0])"
  by code_simp

section \<open>The recorder output (src/output/plugins/RecorderOutputPlugin.cxx)\<close>

text \<open>
  The recorder encodes what it is given to play and writes the result to a file. The
  file system, the encoder plugin and the log are outside the plugin's file; they
  enter the model as state: the files and open descriptors of the process, and the
  answers that the coming \<open>write\<close> calls and encoder calls will give.
\<close>

type_synonym Error = string

datatype status = Ok | Failed Error

subsection \<open>The operating system\<close>

datatype errno = EINTR | EIO | ENOSPC | EBADF | EACCES

text \<open>
  The answer to a \<open>write\<close>: the kernel takes at most so many bytes, or refuses with
  an error number. When the list of answers is used up every \<open>write\<close> takes all.
\<close>

datatype write_reply = Accepts nat | Refuses errno

record OS =
  files :: "string \<rightharpoonup> byte list"
  descriptors :: "(nat \<times> string) list"
  locked :: "string list"
  write_replies :: "write_reply list"
  os_errno :: errno

text \<open>The lowest descriptor number that is not in use.\<close>

definition unused_fd :: "(nat \<times> string) list \<Rightarrow> nat" where
  "unused_fd ds = hd (filter (\<lambda>n. n \<notin> fst ` set ds) [0 ..< Suc (length ds)])"

text \<open>
  Modelled from the spec: \<open>OpenFile\<close> and \<open>RemoveFile\<close> (fs/FileSystem.hxx is not part
  of the sources), the create, write and remove of the byte sink. \<open>OpenFile\<close> with
  \<open>O_CREAT|O_WRONLY|O_TRUNC\<close> creates or empties the file, unless the path is one
  that cannot be created; \<open>RemoveFile\<close> unlinks the path.
\<close>

definition OpenFile :: "OS \<Rightarrow> string \<Rightarrow> int \<times> OS" where
  "OpenFile s p =
     (if p \<in> set (locked s) then (-1, s\<lparr>os_errno := EACCES\<rparr>)
      else (int (unused_fd (descriptors s)),
            s\<lparr>files := (files s)(p \<mapsto> []),
              descriptors := (unused_fd (descriptors s), p) # descriptors s\<rparr>))"

definition RemoveFile :: "OS \<Rightarrow> string \<Rightarrow> OS" where
  "RemoveFile s p = s\<lparr>files := (files s)(p := None)\<rparr>"

definition os_close :: "OS \<Rightarrow> int \<Rightarrow> OS" where
  "os_close s d = s\<lparr>descriptors := filter (\<lambda>(k, p). int k \<noteq> d) (descriptors s)\<rparr>"

definition append_file :: "OS \<Rightarrow> string \<Rightarrow> byte list \<Rightarrow> OS" where
  "append_file s p data =
     (case files s p of
        None \<Rightarrow> s
      | Some old \<Rightarrow> s\<lparr>files := (files s)(p \<mapsto> old @ data)\<rparr>)"

definition os_write :: "OS \<Rightarrow> int \<Rightarrow> byte list \<Rightarrow> int \<times> OS" where
  "os_write s d data =
     (case (if d < 0 then None else map_of (descriptors s) (nat d)) of
        None \<Rightarrow> (-1, s\<lparr>os_errno := EBADF\<rparr>)
      | Some p \<Rightarrow>
          (case write_replies s of
             [] \<Rightarrow> (int (length data), append_file s p data)
           | Accepts n # rest \<Rightarrow>
               (int (min n (length data)),
                append_file (s\<lparr>write_replies := rest\<rparr>) p (take n data))
           | Refuses e # rest \<Rightarrow> (-1, s\<lparr>write_replies := rest, os_errno := e\<rparr>)))"

subsection \<open>The encoder\<close>

text \<open>
  Modelled from the spec: the encoder (encoder/EncoderPlugin.hxx is not part of the
  sources). It owns a buffer of pending output; \<open>encoder_read\<close> drains it and
  returns nothing when it is empty. Every other call either adds output to the
  buffer or fails, as the list of coming answers says (when the list is used up, a
  call succeeds without output). \<open>calls\<close> records the calls in their order.
\<close>

datatype enc_call = EncOpen | EncWrite nat | EncRead nat | EncPreTag | EncTag | EncEnd | EncClose

datatype enc_reply = Emits "byte list" | Rejects Error

record Encoder =
  is_open :: bool
  pending :: "byte list"
  replies :: "enc_reply list"
  calls :: "enc_call list"

definition encoder_request :: "Encoder \<Rightarrow> enc_call \<Rightarrow> status \<times> Encoder" where
  "encoder_request e c =
     (case replies e of
        [] \<Rightarrow> (Ok, e\<lparr>calls := calls e @ [c]\<rparr>)
      | Emits bs # rest \<Rightarrow>
          (Ok, e\<lparr>pending := pending e @ bs, replies := rest, calls := calls e @ [c]\<rparr>)
      | Rejects err # rest \<Rightarrow> (Failed err, e\<lparr>replies := rest, calls := calls e @ [c]\<rparr>))"

definition encoder_open :: "Encoder \<Rightarrow> AudioFormat \<Rightarrow> status \<times> Encoder" where
  "encoder_open e af =
     (case encoder_request e EncOpen of
        (Ok, e') \<Rightarrow> (Ok, e'\<lparr>is_open := True\<rparr>)
      | (Failed err, e') \<Rightarrow> (Failed err, e'))"

definition encoder_close :: "Encoder \<Rightarrow> Encoder" where
  "encoder_close e = e\<lparr>is_open := False, calls := calls e @ [EncClose]\<rparr>"

definition encoder_write :: "Encoder \<Rightarrow> byte list \<Rightarrow> status \<times> Encoder" where
  "encoder_write e data = encoder_request e (EncWrite (length data))"

definition encoder_read :: "Encoder \<Rightarrow> nat \<Rightarrow> byte list \<times> Encoder" where
  "encoder_read e n =
     (take n (pending e),
      e\<lparr>pending := drop n (pending e),
        calls := calls e @ [EncRead (length (take n (pending e)))]\<rparr>)"

definition encoder_pre_tag :: "Encoder \<Rightarrow> status \<times> Encoder" where
  "encoder_pre_tag e = encoder_request e EncPreTag"

definition encoder_end :: "Encoder \<Rightarrow> status \<times> Encoder" where
  "encoder_end e = encoder_request e EncEnd"

subsection \<open>The plugin\<close>

text \<open>
  The \<open>RecorderOutput\<close> object, together with the state of the process it acts on
  and the lines that \<open>LogError\<close> has written.
\<close>

record RecorderOutput =
  encoder :: Encoder
  path :: string
  fd :: int
  os :: OS
  logged :: "Error list"

text \<open>
  Lines 150 to 174. \<open>write\<close> is called until all bytes are out; only an interrupted
  call is tried again.
\<close>

function WriteToFile :: "OS \<Rightarrow> int \<Rightarrow> string \<Rightarrow> byte list \<Rightarrow> status \<times> OS" where
  "WriteToFile s d p data =
     (case os_write s d data of
        (nbytes, s1) \<Rightarrow>
          if nbytes > 0
          then (if nat nbytes = length data then (Ok, s1)
                else WriteToFile s1 d p (drop (nat nbytes) data))
          else if nbytes = 0 then (Failed ''write() returned 0'', s1)
          else if os_errno s1 \<noteq> EINTR then (Failed (''Failed to write to '' @ p), s1)
          else WriteToFile s1 d p data)"
  by pat_completeness auto
termination
  by (relation "measure (\<lambda>(s, d, p, data). length (write_replies s))")
    (auto simp: os_write_def append_file_def
      split: option.splits list.splits write_reply.splits if_splits)

declare WriteToFile.simps [simp del]

text \<open>Lines 176 to 193: the encoder's pending output goes to the file.\<close>

function EncoderToFile :: "RecorderOutput \<Rightarrow> status \<times> RecorderOutput" where
  "EncoderToFile r =
     (case encoder_read (encoder r) 32768 of
        (data, e) \<Rightarrow>
          if length data = 0 then (Ok, r\<lparr>encoder := e\<rparr>)
          else (case WriteToFile (os r) (fd r) (path r) data of
                  (Ok, s1) \<Rightarrow> EncoderToFile (r\<lparr>encoder := e, os := s1\<rparr>)
                | (Failed err, s1) \<Rightarrow> (Failed err, r\<lparr>encoder := e, os := s1\<rparr>)))"
  by pat_completeness auto
termination
  by (relation "measure (\<lambda>r. length (pending (encoder r)))")
    (auto simp: encoder_read_def)

declare EncoderToFile.simps [simp del]

text \<open>Lines 195 to 224.\<close>

definition Open :: "RecorderOutput \<Rightarrow> AudioFormat \<Rightarrow> status \<times> RecorderOutput" where
  "Open r af =
     (case OpenFile (os r) (path r) of
        (d, s1) \<Rightarrow>
          if d < 0 then (Failed (''Failed to create '' @ path r), r\<lparr>fd := d, os := s1\<rparr>)
          else (case encoder_open (encoder r) af of
                  (Failed err, e) \<Rightarrow>
                    (Failed err,
                     r\<lparr>fd := d, encoder := e, os := RemoveFile (os_close s1 d) (path r)\<rparr>)
                | (Ok, e) \<Rightarrow>
                    (case EncoderToFile (r\<lparr>fd := d, encoder := e, os := s1\<rparr>) of
                       (Failed err, r2) \<Rightarrow>
                         (Failed err,
                          r2\<lparr>encoder := encoder_close (encoder r2),
                             os := RemoveFile (os_close (os r2) (fd r2)) (path r2)\<rparr>)
                     | (Ok, r2) \<Rightarrow> (Ok, r2))))"

text \<open>Lines 226 to 239.\<close>

definition Close :: "RecorderOutput \<Rightarrow> RecorderOutput" where
  "Close r =
     (case encoder_end (encoder r) of
        (st, e) \<Rightarrow>
          (let r1 = (if st = Ok then snd (EncoderToFile (r\<lparr>encoder := e\<rparr>))
                     else r\<lparr>encoder := e\<rparr>)
           in r1\<lparr>encoder := encoder_close (encoder r1), os := os_close (os r1) (fd r1)\<rparr>))"

text \<open>Lines 259 to 265. The chunk to play is a list of bytes; \<open>size\<close> is its length.\<close>

definition Play :: "RecorderOutput \<Rightarrow> byte list \<Rightarrow> nat \<times> status \<times> RecorderOutput" where
  "Play r pcm =
     (case encoder_write (encoder r) pcm of
        (Failed err, e) \<Rightarrow> (0, Failed err, r\<lparr>encoder := e\<rparr>)
      | (Ok, e) \<Rightarrow>
          (case EncoderToFile (r\<lparr>encoder := e\<rparr>) of
             (Failed err, r2) \<Rightarrow> (0, Failed err, r2)
           | (Ok, r2) \<Rightarrow> (length pcm, Ok, r2)))"


text \<open>
  Tags (tag/Tag.hxx and tag/TagType.h are not part of the sources): the types of
  items, and a tag as its duration and its items in their order. The recorder hands
  a tag on to the encoder; Count.cxx reads the duration, a signed 32-bit count of
  milliseconds, and the items.
\<close>

datatype TagType =
  TAG_ARTIST | TAG_ARTIST_SORT | TAG_ALBUM | TAG_ALBUM_SORT | TAG_ALBUM_ARTIST
| TAG_ALBUM_ARTIST_SORT | TAG_TITLE | TAG_TRACK | TAG_NAME | TAG_GENRE | TAG_DATE
| TAG_COMPOSER | TAG_PERFORMER | TAG_COMMENT | TAG_DISC | TAG_NUM_OF_ITEM_TYPES

record TagItem =
  item_type :: TagType
  item_value :: string

record Tag =
  duration :: "32 word"
  items :: "TagItem list"

definition encoder_tag :: "Encoder \<Rightarrow> Tag \<Rightarrow> status \<times> Encoder" where
  "encoder_tag e tag = encoder_request e EncTag"

definition LogError :: "Error \<Rightarrow> RecorderOutput \<Rightarrow> RecorderOutput" where
  "LogError err r = r\<lparr>logged := logged r @ [err]\<rparr>"

text \<open>Lines 241 to 249.\<close>

definition SendTag :: "RecorderOutput \<Rightarrow> Tag \<Rightarrow> RecorderOutput" where
  "SendTag r tag =
     (case encoder_pre_tag (encoder r) of
        (Failed err, e) \<Rightarrow> LogError err (r\<lparr>encoder := e\<rparr>)
      | (Ok, e) \<Rightarrow>
          (case EncoderToFile (r\<lparr>encoder := e\<rparr>) of
             (Failed err, r1) \<Rightarrow> LogError err r1
           | (Ok, r1) \<Rightarrow>
               (case encoder_tag (encoder r1) tag of
                  (Failed err, e') \<Rightarrow> LogError err (r1\<lparr>encoder := e'\<rparr>)
                | (Ok, e') \<Rightarrow> r1\<lparr>encoder := e'\<rparr>)))"

subsection \<open>Concrete recorders\<close>

text \<open>
  A recorder before \<open>Open\<close> and one that is open on \<open>out.ogg\<close>, with the answers
  the encoder and the kernel will give.
\<close>

definition closed_recorder :: "enc_reply list \<Rightarrow> write_reply list \<Rightarrow> RecorderOutput" where
  "closed_recorder es ws =
     \<lparr>encoder = \<lparr>is_open = False, pending = [], replies = es, calls = []\<rparr>,
      path = ''out.ogg'', fd = -1,
      os = \<lparr>files = Map.empty, descriptors = [(0, ''stdin''), (1, ''stdout'')],
             locked = [], write_replies = ws, os_errno = EIO\<rparr>,
      logged = []\<rparr>"

definition open_recorder :: "enc_reply list \<Rightarrow> write_reply list \<Rightarrow> RecorderOutput" where
  "open_recorder es ws =
     \<lparr>encoder = \<lparr>is_open = True, pending = [], replies = es, calls = []\<rparr>,
      path = ''out.ogg'', fd = 2,
      os = \<lparr>files = [''out.ogg'' \<mapsto> [79]],
             descriptors = [(2, ''out.ogg''), (0, ''stdin''), (1, ''stdout'')],
             locked = [], write_replies = ws, os_errno = EIO\<rparr>,
      logged = []\<rparr>"

definition cd_quality :: AudioFormat where
  "cd_quality = \<lparr>bits = 16, channels = 2, sampleRate = 44100\<rparr>"


subsection \<open>Facts about the file system and the two loops\<close>

lemma unused_fd_fresh: "unused_fd ds \<notin> fst ` set ds"
proof -
  let ?free = "filter (\<lambda>n. n \<notin> fst ` set ds) [0 ..< Suc (length ds)]"
  have "?free \<noteq> []"
  proof
    assume "?free = []"
    then have "\<forall>n \<in> set [0 ..< Suc (length ds)]. \<not> n \<notin> fst ` set ds"
      by (simp only: filter_empty_conv)
    then have "{0 ..< Suc (length ds)} \<subseteq> fst ` set ds"
      by (auto simp del: upt_Suc)
    then have "card {0 ..< Suc (length ds)} \<le> card (fst ` set ds)"
      by (intro card_mono) auto
    also have "\<dots> \<le> card (set ds)" by (rule card_image_le) simp
    also have "\<dots> \<le> length ds" by (rule card_length)
    finally show False by simp
  qed
  then have "hd ?free \<in> set ?free" by (rule hd_in_set)
  then have "hd ?free \<in> {n \<in> set [0 ..< Suc (length ds)]. n \<notin> fst ` set ds}"
    by (simp only: set_filter)
  then have "hd ?free \<notin> fst ` set ds" by blast
  then show ?thesis unfolding unused_fd_def .
qed

lemma os_close_unused:
  "os_close (s\<lparr>descriptors := (unused_fd (descriptors s), p) # descriptors s\<rparr>)
     (int (unused_fd (descriptors s))) = s"
proof -
  have "filter (\<lambda>(k, p). k \<noteq> unused_fd (descriptors s)) (descriptors s) = descriptors s"
    using unused_fd_fresh [of "descriptors s"] by (force simp: filter_id_conv)
  then show ?thesis by (simp add: os_close_def)
qed

lemma os_write_frame:
  "os_write s d data = (n, s') \<Longrightarrow> descriptors s' = descriptors s \<and> locked s' = locked s"
  by (auto simp: os_write_def append_file_def
      split: option.splits list.splits write_reply.splits if_splits)

lemma WriteToFile_frame:
  "WriteToFile s d p data = (st, s') \<Longrightarrow>
   descriptors s' = descriptors s \<and> locked s' = locked s"
proof (induction s d p data rule: WriteToFile.induct)
  case (1 s d p data)
  obtain n s1 where w: "os_write s d data = (n, s1)" by (cases "os_write s d data")
  note fr = os_write_frame [OF w]
  show ?case
    using "1.prems" "1.IH"(1) [OF w [symmetric]] "1.IH"(2) [OF w [symmetric]] fr w
    by (subst (asm) WriteToFile.simps) (auto split: if_splits)
qed


lemma os_write_content:
  assumes "os_write s d data = (n, s1)" and "0 \<le> d"
    and "map_of (descriptors s) (nat d) = Some q" and "files s q = Some old"
  shows "(0 < n \<longrightarrow> nat n \<le> length data
            \<and> files s1 = (files s)(q \<mapsto> old @ take (nat n) data))
       \<and> (n < 0 \<longrightarrow> files s1 = files s)"
  using assms
  by (auto simp: os_write_def append_file_def min_def
      split: list.splits write_reply.splits if_splits)

lemma WriteToFile_appends:
  assumes "WriteToFile s d p data = (Ok, s')" and "0 \<le> d"
    and "map_of (descriptors s) (nat d) = Some q" and "files s q = Some old"
  shows "files s' = (files s)(q \<mapsto> old @ data)"
  using assms
proof (induction s d p data arbitrary: old rule: WriteToFile.induct)
  case (1 s d p data)
  obtain n s1 where w: "os_write s d data = (n, s1)" by (cases "os_write s d data")
  note fr = os_write_frame [OF w]
  note ct = os_write_content [OF w "1.prems"(2,3,4)]
  show ?case
  proof (cases "0 < n")
    case True
    then have files1: "files s1 = (files s)(q \<mapsto> old @ take (nat n) data)"
      and le: "nat n \<le> length data"
      using ct by simp_all
    show ?thesis
    proof (cases "nat n = length data")
      case True
      then show ?thesis
        using "1.prems"(1) w \<open>0 < n\<close> files1
        by (subst (asm) WriteToFile.simps) simp
    next
      case False
      then have rest: "WriteToFile s1 d p (drop (nat n) data) = (Ok, s')"
        using "1.prems"(1) w \<open>0 < n\<close>
        by (subst (asm) WriteToFile.simps) simp
      have d1: "map_of (descriptors s1) (nat d) = Some q"
        using fr "1.prems"(3) by simp
      have f1: "files s1 q = Some (old @ take (nat n) data)"
        using files1 by simp
      have "files s' = (files s1)(q \<mapsto> (old @ take (nat n) data) @ drop (nat n) data)"
        by (rule "1.IH"(1) [OF w [symmetric] \<open>0 < n\<close> False rest "1.prems"(2) d1 f1])
      then show ?thesis
        using files1 by simp
    qed
  next
    case False
    then have retry: "n < 0" "os_errno s1 = EINTR" "WriteToFile s1 d p data = (Ok, s')"
      using "1.prems"(1) w
      by (subst (asm) WriteToFile.simps, auto split: if_splits)+
    then have "files s1 = files s"
      using ct by simp
    moreover have "\<not> os_errno s1 \<noteq> EINTR" using retry by simp
    moreover have d1: "map_of (descriptors s1) (nat d) = Some q"
      using fr "1.prems"(3) by simp
    moreover have "n \<noteq> 0" using retry(1) by simp
    ultimately show ?thesis
      using "1.IH"(2) [OF w [symmetric] False _ \<open>\<not> os_errno s1 \<noteq> EINTR\<close> retry(3) "1.prems"(2) d1]
        "1.prems"(4)
      by simp
  qed
qed


lemma EncoderToFile_frame:
  "EncoderToFile r = (st, r') \<Longrightarrow>
   fd r' = fd r \<and> path r' = path r \<and> logged r' = logged r
   \<and> is_open (encoder r') = is_open (encoder r)
   \<and> replies (encoder r') = replies (encoder r)
   \<and> descriptors (os r') = descriptors (os r) \<and> locked (os r') = locked (os r)"
proof (induction r rule: EncoderToFile.induct)
  case (1 r)
  obtain data e where rd: "encoder_read (encoder r) 32768 = (data, e)"
    by (cases "encoder_read (encoder r) 32768")
  then have e: "is_open e = is_open (encoder r)" "replies e = replies (encoder r)"
    by (auto simp: encoder_read_def)
  show ?case
  proof (cases "length data = 0")
    case True
    then show ?thesis
      using "1.prems" rd e by (subst (asm) EncoderToFile.simps) auto
  next
    case False
    obtain w s1 where wr: "WriteToFile (os r) (fd r) (path r) data = (w, s1)"
      by (cases "WriteToFile (os r) (fd r) (path r) data")
    note fr = WriteToFile_frame [OF wr]
    show ?thesis
    proof (cases w)
      case Ok
      then have "EncoderToFile (r\<lparr>encoder := e, os := s1\<rparr>) = (st, r')"
        using "1.prems" rd False wr by (subst (asm) EncoderToFile.simps) simp
      from "1.IH" [OF rd [symmetric] False _ _ this] wr Ok
      show ?thesis using e fr by simp
    next
      case (Failed err)
      then show ?thesis
        using "1.prems" rd False wr e fr by (subst (asm) EncoderToFile.simps) auto
    qed
  qed
qed


lemma EncoderToFile_drains:
  assumes "EncoderToFile r = (Ok, r')"
    and "0 \<le> fd r" and "map_of (descriptors (os r)) (nat (fd r)) = Some q"
    and "files (os r) q = Some old"
  shows "pending (encoder r') = []
       \<and> files (os r') = (files (os r))(q \<mapsto> old @ pending (encoder r))"
  using assms
proof (induction r arbitrary: old rule: EncoderToFile.induct)
  case (1 r)
  obtain data e where rd: "encoder_read (encoder r) 32768 = (data, e)"
    by (cases "encoder_read (encoder r) 32768")
  then have e: "data = take 32768 (pending (encoder r))"
      "pending e = drop 32768 (pending (encoder r))"
    by (auto simp: encoder_read_def)
  show ?case
  proof (cases "length data = 0")
    case True
    then have "pending (encoder r) = []"
      using e by (simp add: min_def split: if_splits)
    then show ?thesis
      using "1.prems" rd True e by (subst (asm) EncoderToFile.simps) auto
  next
    case False
    obtain w s1 where wr: "WriteToFile (os r) (fd r) (path r) data = (w, s1)"
      by (cases "WriteToFile (os r) (fd r) (path r) data")
    have ok: "w = Ok"
      using "1.prems"(1) rd False wr
      by (subst (asm) EncoderToFile.simps) (auto split: status.splits)
    have rest: "EncoderToFile (r\<lparr>encoder := e, os := s1\<rparr>) = (Ok, r')"
      using "1.prems"(1) rd False wr ok by (subst (asm) EncoderToFile.simps) simp
    have files1: "files s1 = (files (os r))(q \<mapsto> old @ data)"
      using WriteToFile_appends [OF wr [unfolded ok] "1.prems"(2,3,4)] .
    have d1: "map_of (descriptors (os (r\<lparr>encoder := e, os := s1\<rparr>)))
                (nat (fd (r\<lparr>encoder := e, os := s1\<rparr>))) = Some q"
      using WriteToFile_frame [OF wr] "1.prems"(3) by simp
    have f1: "files (os (r\<lparr>encoder := e, os := s1\<rparr>)) q = Some (old @ data)"
      using files1 by simp
    have fd1: "0 \<le> fd (r\<lparr>encoder := e, os := s1\<rparr>)"
      using "1.prems"(2) by simp
    have sel: "os (r\<lparr>encoder := e, os := s1\<rparr>) = s1"
        "encoder (r\<lparr>encoder := e, os := s1\<rparr>) = e"
      by simp_all
    have "pending (encoder r') = []
        \<and> files (os r') = (files (os (r\<lparr>encoder := e, os := s1\<rparr>)))
             (q \<mapsto> (old @ data) @ pending (encoder (r\<lparr>encoder := e, os := s1\<rparr>)))"
      by (rule "1.IH" [OF rd [symmetric] False wr [unfolded ok, symmetric] refl rest fd1 d1 f1])
    then have "pending (encoder r') = []"
      and "files (os r') = (files s1)(q \<mapsto> (old @ data) @ pending e)"
      by (simp_all only: sel)
    then show ?thesis
      using files1 e by simp
  qed
qed

lemma EncoderToFile_calls:
  "EncoderToFile r = (st, r') \<Longrightarrow>
   \<exists>ks. calls (encoder r') = calls (encoder r) @ map EncRead ks
       \<and> (st = Ok \<longrightarrow> ks \<noteq> [] \<and> last ks = 0)"
proof (induction r rule: EncoderToFile.induct)
  case (1 r)
  obtain data e where rd: "encoder_read (encoder r) 32768 = (data, e)"
    by (cases "encoder_read (encoder r) 32768")
  then have e: "calls e = calls (encoder r) @ [EncRead (length data)]"
    by (auto simp: encoder_read_def)
  show ?case
  proof (cases "length data = 0")
    case True
    then have "st = Ok" "calls (encoder r') = calls (encoder r) @ map EncRead [0]"
      using "1.prems" rd e by (subst (asm) EncoderToFile.simps, auto)+
    then show ?thesis by (intro exI [of _ "[0]"]) simp
  next
    case False
    obtain w s1 where wr: "WriteToFile (os r) (fd r) (path r) data = (w, s1)"
      by (cases "WriteToFile (os r) (fd r) (path r) data")
    show ?thesis
    proof (cases w)
      case Ok
      then have "EncoderToFile (r\<lparr>encoder := e, os := s1\<rparr>) = (st, r')"
        using "1.prems" rd False wr by (subst (asm) EncoderToFile.simps) simp
      from "1.IH" [OF rd [symmetric] False _ _ this] wr Ok
      obtain ks where ks: "calls (encoder r') = calls e @ map EncRead ks"
          "st = Ok \<longrightarrow> ks \<noteq> [] \<and> last ks = 0"
        by auto
      then have "calls (encoder r') = calls (encoder r) @ map EncRead (length data # ks)"
        using e by simp
      moreover have "st = Ok \<longrightarrow> length data # ks \<noteq> [] \<and> last (length data # ks) = 0"
        using ks(2) by simp
      ultimately show ?thesis by (intro exI [of _ "length data # ks"]) simp
    next
      case (Failed err)
      then have "st \<noteq> Ok" "calls (encoder r') = calls (encoder r) @ map EncRead [length data]"
        using "1.prems" rd False wr e by (subst (asm) EncoderToFile.simps, auto)+
      then show ?thesis by (intro exI [of _ "[length data]"]) simp
    qed
  qed
qed


lemma os_write_elsewhere:
  assumes "os_write s d data = (n, s1)" and "0 \<le> d"
    and "map_of (descriptors s) (nat d) = Some q"
  shows "(files s1)(q := None) = (files s)(q := None)"
  using assms
  by (auto simp: os_write_def append_file_def
      split: option.splits list.splits write_reply.splits if_splits)

lemma WriteToFile_elsewhere:
  assumes "WriteToFile s d p data = (st, s')" and "0 \<le> d"
    and "map_of (descriptors s) (nat d) = Some q"
  shows "(files s')(q := None) = (files s)(q := None)"
  using assms
proof (induction s d p data rule: WriteToFile.induct)
  case (1 s d p data)
  obtain n s1 where w: "os_write s d data = (n, s1)" by (cases "os_write s d data")
  note fr = os_write_frame [OF w]
  note el = os_write_elsewhere [OF w "1.prems"(2,3)]
  have d1: "map_of (descriptors s1) (nat d) = Some q"
    using fr "1.prems"(3) by simp
  show ?case
  proof (cases "0 < n \<and> nat n \<noteq> length data")
    case True
    then have "WriteToFile s1 d p (drop (nat n) data) = (st, s')"
      using "1.prems"(1) w by (subst (asm) WriteToFile.simps) simp
    from "1.IH"(1) [OF w [symmetric] _ _ this "1.prems"(2) d1] True el
    show ?thesis by simp
  next
    case False
    show ?thesis
    proof (cases "n < 0 \<and> os_errno s1 = EINTR")
      case True
      then have "WriteToFile s1 d p data = (st, s')"
        using "1.prems"(1) w by (subst (asm) WriteToFile.simps) simp
      from "1.IH"(2) [OF w [symmetric] _ _ _ this "1.prems"(2) d1] True el
      show ?thesis by simp
    next
      case False
      with \<open>\<not> (0 < n \<and> nat n \<noteq> length data)\<close> have "s' = s1"
        using "1.prems"(1) w
        by (subst (asm) WriteToFile.simps) (auto split: if_splits)
      then show ?thesis using el by simp
    qed
  qed
qed

lemma EncoderToFile_elsewhere:
  assumes "EncoderToFile r = (st, r')" and "0 \<le> fd r"
    and "map_of (descriptors (os r)) (nat (fd r)) = Some q"
  shows "(files (os r'))(q := None) = (files (os r))(q := None)"
  using assms
proof (induction r rule: EncoderToFile.induct)
  case (1 r)
  obtain data e where rd: "encoder_read (encoder r) 32768 = (data, e)"
    by (cases "encoder_read (encoder r) 32768")
  show ?case
  proof (cases "length data = 0")
    case True
    then show ?thesis
      using "1.prems" rd by (subst (asm) EncoderToFile.simps) auto
  next
    case False
    obtain w s1 where wr: "WriteToFile (os r) (fd r) (path r) data = (w, s1)"
      by (cases "WriteToFile (os r) (fd r) (path r) data")
    note el = WriteToFile_elsewhere [OF wr "1.prems"(2,3)]
    show ?thesis
    proof (cases w)
      case Ok
      then have rest: "EncoderToFile (r\<lparr>encoder := e, os := s1\<rparr>) = (st, r')"
        using "1.prems" rd False wr by (subst (asm) EncoderToFile.simps) simp
      have sel: "os (r\<lparr>encoder := e, os := s1\<rparr>) = s1"
        by simp
      have fd1: "0 \<le> fd (r\<lparr>encoder := e, os := s1\<rparr>)"
        using "1.prems"(2) by simp
      have d1: "map_of (descriptors (os (r\<lparr>encoder := e, os := s1\<rparr>)))
                  (nat (fd (r\<lparr>encoder := e, os := s1\<rparr>))) = Some q"
        using WriteToFile_frame [OF wr] "1.prems"(3) by simp
      have "(files (os r'))(q := None) = (files (os (r\<lparr>encoder := e, os := s1\<rparr>)))(q := None)"
        by (rule "1.IH" [OF rd [symmetric] False wr [unfolded Ok, symmetric] refl rest fd1 d1])
      then show ?thesis
        using el by (simp only: sel)
    next
      case (Failed err)
      then have "os r' = s1"
        using "1.prems" rd False wr by (subst (asm) EncoderToFile.simps) auto
      then show ?thesis using el by simp
    qed
  qed
qed

lemma encoder_request_calls:
  "calls (snd (encoder_request e c)) = calls e @ [c]
   \<and> is_open (snd (encoder_request e c)) = is_open e"
  by (auto simp: encoder_request_def split: list.splits enc_reply.splits)

text \<open>What a failed \<open>Open\<close> leaves behind, whichever step failed.\<close>

lemma Open_rollback:
  assumes "Open r af = (Failed err, r')"
  shows "descriptors (os r') = descriptors (os r)
       \<and> (if path r \<in> set (locked (os r)) then files (os r') = files (os r)
          else files (os r') = (files (os r))(path r := None))
       \<and> (\<not> is_open (encoder r) \<longrightarrow> \<not> is_open (encoder r'))"
proof (cases "path r \<in> set (locked (os r))")
  case True
  then show ?thesis
    using assms by (auto simp: Open_def OpenFile_def)
next
  case False
  let ?d = "unused_fd (descriptors (os r))"
  let ?s1 = "(os r)\<lparr>files := (files (os r))(path r \<mapsto> []),
                    descriptors := (?d, path r) # descriptors (os r)\<rparr>"
  have op: "OpenFile (os r) (path r) = (int ?d, ?s1)"
    using False by (simp add: OpenFile_def)
  have closed: "descriptors (os_close ?s1 (int ?d)) = descriptors (os r)"
    using os_close_unused [of "(os r)\<lparr>files := (files (os r))(path r \<mapsto> [])\<rparr>" "path r"]
    by (simp add: os_close_def)
  obtain st e where eo: "encoder_open (encoder r) af = (st, e)"
    by (cases "encoder_open (encoder r) af")
  show ?thesis
  proof (cases st)
    case (Failed err1)
    then have r': "r' = r\<lparr>fd := int ?d, encoder := e,
                          os := RemoveFile (os_close ?s1 (int ?d)) (path r)\<rparr>"
      using assms op eo by (simp add: Open_def)
    have "is_open e = is_open (encoder r)"
      using eo Failed
      by (auto simp: encoder_open_def encoder_request_def
          split: list.splits enc_reply.splits)
    then show ?thesis
      using False r' closed by (simp add: RemoveFile_def os_close_def)
  next
    case Ok
    let ?r1 = "r\<lparr>fd := int ?d, encoder := e, os := ?s1\<rparr>"
    obtain st2 r2 where dr: "EncoderToFile ?r1 = (st2, r2)"
      by (cases "EncoderToFile ?r1")
    then obtain err2 where st2: "st2 = Failed err2"
      using assms op eo Ok by (cases st2) (auto simp: Open_def)
    then have r': "r' = r2\<lparr>encoder := encoder_close (encoder r2),
                           os := RemoveFile (os_close (os r2) (fd r2)) (path r2)\<rparr>"
      using assms op eo Ok dr by (simp add: Open_def)
    note fr = EncoderToFile_frame [OF dr]
    have "map_of (descriptors (os ?r1)) (nat (fd ?r1)) = Some (path r)"
      by simp
    from EncoderToFile_elsewhere [OF dr _ this]
    have "(files (os r2))(path r := None) = (files (os r))(path r := None)"
      by simp
    moreover have "descriptors (os_close (os r2) (fd r2)) = descriptors (os r)"
      using fr closed by (simp add: os_close_def)
    ultimately show ?thesis
      using False r' fr by (simp add: RemoveFile_def os_close_def encoder_close_def)
  qed
qed

text \<open>
  With a kernel that takes every byte and a valid descriptor, the two write loops
  succeed, and \<open>Play\<close> appends the encoder's output to the destination file.
\<close>

lemma WriteToFile_takes_all:
  assumes "write_replies s = []" and "0 \<le> d"
    and "map_of (descriptors s) (nat d) = Some q" and "data \<noteq> []"
  shows "fst (WriteToFile s d p data) = Ok
       \<and> write_replies (snd (WriteToFile s d p data)) = []"
  using assms
  by (subst (1 2) WriteToFile.simps)
     (simp add: os_write_def append_file_def split: option.splits)

lemma EncoderToFile_succeeds:
  assumes "write_replies (os r) = []" and "0 \<le> fd r"
    and "map_of (descriptors (os r)) (nat (fd r)) = Some q"
  shows "fst (EncoderToFile r) = Ok \<and> write_replies (os (snd (EncoderToFile r))) = []"
  using assms
proof (induction r rule: EncoderToFile.induct)
  case (1 r)
  obtain data e where rd: "encoder_read (encoder r) 32768 = (data, e)"
    by (cases "encoder_read (encoder r) 32768")
  show ?case
  proof (cases "length data = 0")
    case True
    then show ?thesis
      using rd "1.prems"(1) by (subst (1 2) EncoderToFile.simps) simp
  next
    case False
    obtain w s1 where wr: "WriteToFile (os r) (fd r) (path r) data = (w, s1)"
      by (cases "WriteToFile (os r) (fd r) (path r) data")
    have ne: "data \<noteq> []" using False by simp
    from WriteToFile_takes_all [OF "1.prems"(1,2,3) ne, of "path r"] wr
    have w: "w = Ok" and s1: "write_replies s1 = []"
      by simp_all
    have sel: "os (r\<lparr>encoder := e, os := s1\<rparr>) = s1" "fd (r\<lparr>encoder := e, os := s1\<rparr>) = fd r"
      by simp_all
    have d1: "map_of (descriptors (os (r\<lparr>encoder := e, os := s1\<rparr>)))
                (nat (fd (r\<lparr>encoder := e, os := s1\<rparr>))) = Some q"
      using WriteToFile_frame [OF wr] "1.prems"(3) by simp
    have "fst (EncoderToFile (r\<lparr>encoder := e, os := s1\<rparr>)) = Ok
        \<and> write_replies (os (snd (EncoderToFile (r\<lparr>encoder := e, os := s1\<rparr>)))) = []"
      using "1.IH" [OF rd [symmetric] False wr [unfolded w, symmetric] refl] s1 "1.prems"(2) d1
      by (simp only: sel)
    moreover have "EncoderToFile r = EncoderToFile (r\<lparr>encoder := e, os := s1\<rparr>)"
      using rd False wr w by (subst EncoderToFile.simps) simp
    ultimately show ?thesis by simp
  qed
qed

lemma Play_succeeds:
  assumes "replies (encoder x) = Emits bs # rest" and "write_replies (os x) = []"
    and "0 \<le> fd x" and "map_of (descriptors (os x)) (nat (fd x)) = Some q"
    and "files (os x) q = Some now"
  shows "fst (Play x pcm) = length pcm
       \<and> fst (snd (Play x pcm)) = Ok
       \<and> files (os (snd (snd (Play x pcm)))) q = Some (now @ pending (encoder x) @ bs)
       \<and> pending (encoder (snd (snd (Play x pcm)))) = []"
proof -
  let ?e = "(encoder x)\<lparr>pending := pending (encoder x) @ bs, replies := rest,
                          calls := calls (encoder x) @ [EncWrite (length pcm)]\<rparr>"
  have w: "encoder_write (encoder x) pcm = (Ok, ?e)"
    using assms(1) by (simp add: encoder_write_def encoder_request_def)
  let ?x = "x\<lparr>encoder := ?e\<rparr>"
  obtain st r2 where d: "EncoderToFile ?x = (st, r2)"
    by (cases "EncoderToFile ?x")
  have "fst (EncoderToFile ?x) = Ok"
    using EncoderToFile_succeeds [of ?x q] assms(2,3,4) by simp
  then have st: "st = Ok" using d by simp
  have "pending (encoder r2) = []
      \<and> files (os r2) = (files (os ?x))(q \<mapsto> now @ pending (encoder ?x))"
    using EncoderToFile_drains [of ?x r2 q now] d st assms(3,4,5) by simp
  then have "pending (encoder r2) = []" "files (os r2) q = Some (now @ pending (encoder x) @ bs)"
    by simp_all
  moreover have "Play x pcm = (length pcm, Ok, r2)"
    using w d st by (simp add: Play_def)
  ultimately show ?thesis by simp
qed


section \<open>The claims about the recorder output\<close>

text \<open>
  Claim C7. \<open>Open\<close> succeeds exactly when the creation of the file, the opening of
  the encoder and the drain of the encoder's header all succeed. When the creation
  fails, \<open>Open\<close> fails and files, descriptors and encoder are untouched. When the
  encoder fails to open, or the drain fails, \<open>Open\<close> fails with the error of that
  step, the process has the descriptors it had before, and the file system is what
  it was with the destination path removed; the encoder that failed to open was
  never opened, and the one whose header could not be written is closed again.
\<close>

theorem Open_failure_leaves_nothing:
  "(fst (OpenFile (os r) (path r)) < 0 \<longrightarrow>
      (\<exists>err. fst (Open r af) = Failed err)
      \<and> files (os (snd (Open r af))) = files (os r)
      \<and> descriptors (os (snd (Open r af))) = descriptors (os r)
      \<and> encoder (snd (Open r af)) = encoder r)
   \<and> (\<not> fst (OpenFile (os r) (path r)) < 0
        \<and> fst (encoder_open (encoder r) af) = Failed err \<longrightarrow>
      fst (Open r af) = Failed err
      \<and> files (os (snd (Open r af))) = (files (os r))(path r := None)
      \<and> descriptors (os (snd (Open r af))) = descriptors (os r)
      \<and> is_open (encoder (snd (Open r af))) = is_open (encoder r))
   \<and> (\<not> fst (OpenFile (os r) (path r)) < 0
        \<and> fst (encoder_open (encoder r) af) = Ok
        \<and> fst (EncoderToFile (r\<lparr>fd := fst (OpenFile (os r) (path r)),
                                  encoder := snd (encoder_open (encoder r) af),
                                  os := snd (OpenFile (os r) (path r))\<rparr>)) = Failed err \<longrightarrow>
      fst (Open r af) = Failed err
      \<and> files (os (snd (Open r af))) = (files (os r))(path r := None)
      \<and> descriptors (os (snd (Open r af))) = descriptors (os r)
      \<and> \<not> is_open (encoder (snd (Open r af))))
   \<and> (fst (Open r af) = Ok \<longleftrightarrow>
        \<not> fst (OpenFile (os r) (path r)) < 0
        \<and> fst (encoder_open (encoder r) af) = Ok
        \<and> fst (EncoderToFile (r\<lparr>fd := fst (OpenFile (os r) (path r)),
                                  encoder := snd (encoder_open (encoder r) af),
                                  os := snd (OpenFile (os r) (path r))\<rparr>)) = Ok)
   \<and> (Open r af = (Failed err, r') \<longrightarrow>
        descriptors (os r') = descriptors (os r)
        \<and> (if path r \<in> set (locked (os r)) then files (os r') = files (os r)
           else files (os r') = (files (os r))(path r := None))
        \<and> (\<not> is_open (encoder r) \<longrightarrow> \<not> is_open (encoder r')))"
proof -
  obtain d s1 where op: "OpenFile (os r) (path r) = (d, s1)"
    by (cases "OpenFile (os r) (path r)")
  obtain st e where eo: "encoder_open (encoder r) af = (st, e)"
    by (cases "encoder_open (encoder r) af")
  obtain st2 r2 where dr: "EncoderToFile (r\<lparr>fd := d, encoder := e, os := s1\<rparr>) = (st2, r2)"
    by (cases "EncoderToFile (r\<lparr>fd := d, encoder := e, os := s1\<rparr>)")
  have result: "Open r af =
      (if d < 0 then (Failed (''Failed to create '' @ path r), r\<lparr>fd := d, os := s1\<rparr>)
       else case st of
              Failed err \<Rightarrow> (Failed err, r\<lparr>fd := d, encoder := e,
                                            os := RemoveFile (os_close s1 d) (path r)\<rparr>)
            | Ok \<Rightarrow> (case st2 of
                       Failed err \<Rightarrow> (Failed err,
                          r2\<lparr>encoder := encoder_close (encoder r2),
                             os := RemoveFile (os_close (os r2) (fd r2)) (path r2)\<rparr>)
                     | Ok \<Rightarrow> (Ok, r2)))"
    using op eo dr by (simp add: Open_def split: status.splits)
  have lock: "d < 0 \<longleftrightarrow> path r \<in> set (locked (os r))"
    using op by (auto simp: OpenFile_def split: if_splits)
  have rollback: "descriptors (os r') = descriptors (os r)
        \<and> (if path r \<in> set (locked (os r)) then files (os r') = files (os r)
           else files (os r') = (files (os r))(path r := None))
        \<and> (\<not> is_open (encoder r) \<longrightarrow> \<not> is_open (encoder r'))"
    if "Open r af = (Failed x, r')" for x r'
    using that by (rule Open_rollback)
  have failed_state: "files (os (snd (Open r af))) = (files (os r))(path r := None)
      \<and> descriptors (os (snd (Open r af))) = descriptors (os r)"
    if "\<not> d < 0" "fst (Open r af) = Failed x" for x
  proof -
    have "Open r af = (Failed x, snd (Open r af))"
      using that(2) by (simp add: prod_eq_iff)
    from rollback [OF this] that(1) lock show ?thesis by simp
  qed
  have g1: "(\<exists>err. fst (Open r af) = Failed err)
      \<and> files (os (snd (Open r af))) = files (os r)
      \<and> descriptors (os (snd (Open r af))) = descriptors (os r)
      \<and> encoder (snd (Open r af)) = encoder r" if "d < 0"
    using that result op lock by (auto simp: OpenFile_def split: if_splits)
  have g2: "fst (Open r af) = Failed err
      \<and> files (os (snd (Open r af))) = (files (os r))(path r := None)
      \<and> descriptors (os (snd (Open r af))) = descriptors (os r)
      \<and> is_open (encoder (snd (Open r af))) = is_open (encoder r)"
    if "\<not> d < 0" "st = Failed err"
  proof -
    have f: "fst (Open r af) = Failed err"
      using that result by simp
    have "is_open e = is_open (encoder r)"
      using eo that(2)
      by (auto simp: encoder_open_def encoder_request_def split: list.splits enc_reply.splits)
    then have "is_open (encoder (snd (Open r af))) = is_open (encoder r)"
      using that result by simp
    with f failed_state [OF that(1) f] show ?thesis by simp
  qed
  have g3: "fst (Open r af) = Failed err
      \<and> files (os (snd (Open r af))) = (files (os r))(path r := None)
      \<and> descriptors (os (snd (Open r af))) = descriptors (os r)
      \<and> \<not> is_open (encoder (snd (Open r af)))"
    if "\<not> d < 0" "st = Ok" "st2 = Failed err"
  proof -
    have f: "fst (Open r af) = Failed err"
      using that result by simp
    have "\<not> is_open (encoder (snd (Open r af)))"
      using that result by (simp add: encoder_close_def)
    with f failed_state [OF that(1) f] show ?thesis by simp
  qed
  have g4: "fst (Open r af) = Ok \<longleftrightarrow> \<not> d < 0 \<and> st = Ok \<and> st2 = Ok"
    using result by (cases st; cases st2) simp_all
  have r1: "fst (OpenFile (os r) (path r)) = d" "snd (OpenFile (os r) (path r)) = s1"
      "fst (encoder_open (encoder r) af) = st" "snd (encoder_open (encoder r) af) = e"
    using op eo by simp_all
  have r2: "fst (EncoderToFile (r\<lparr>fd := d, encoder := e, os := s1\<rparr>)) = st2"
    using dr by simp
  show ?thesis
    unfolding r1 r2
    using g1 g2 g3 g4 rollback by (intro conjI impI) (simp_all only:, blast+)
qed

theorem Open_failure_leaves_nothing_witness:
  "fst (Open (closed_recorder [Rejects ''no such codec''] []) cd_quality)
     = Failed ''no such codec''
   \<and> descriptors (os (snd (Open (closed_recorder [Rejects ''no such codec''] []) cd_quality)))
     = [(0, ''stdin''), (1, ''stdout'')]
   \<and> files (os (snd (Open (closed_recorder [Rejects ''no such codec''] []) cd_quality)))
       ''out.ogg'' = None
   \<and> fst (Open (closed_recorder [Emits [1, 2, 3]] [Accepts 1, Refuses ENOSPC]) cd_quality)
     = Failed ''Failed to write to out.ogg''
   \<and> descriptors (os (snd (Open (closed_recorder [Emits [1, 2, 3]] [Accepts 1, Refuses ENOSPC])
                              cd_quality)))
     = [(0, ''stdin''), (1, ''stdout'')]
   \<and> files (os (snd (Open (closed_recorder [Emits [1, 2, 3]] [Accepts 1, Refuses ENOSPC])
                        cd_quality))) ''out.ogg'' = None
   \<and> (\<exists>err. fst (Open ((closed_recorder [] [])
                         \<lparr>os := (os (closed_recorder [] []))\<lparr>locked := [''out.ogg'']\<rparr>\<rparr>)
                    cd_quality) = Failed err)"
proof -
  define a where "a = closed_recorder [Rejects ''no such codec''] []"
  define b where "b = closed_recorder [Emits [1, 2, 3]] [Accepts 1, Refuses ENOSPC]"
  define c where "c = (closed_recorder [] [])
                         \<lparr>os := (os (closed_recorder [] []))\<lparr>locked := [''out.ogg'']\<rparr>\<rparr>"
  have ha: "\<not> fst (OpenFile (os a) (path a)) < 0
      \<and> fst (encoder_open (encoder a) cd_quality) = Failed ''no such codec''"
    unfolding a_def
    by (simp add: OpenFile_def encoder_open_def encoder_request_def closed_recorder_def)
  have hb: "\<not> fst (OpenFile (os b) (path b)) < 0
      \<and> fst (encoder_open (encoder b) cd_quality) = Ok
      \<and> fst (EncoderToFile (b\<lparr>fd := fst (OpenFile (os b) (path b)),
                                encoder := snd (encoder_open (encoder b) cd_quality),
                                os := snd (OpenFile (os b) (path b))\<rparr>))
        = Failed ''Failed to write to out.ogg''"
    unfolding b_def
    by (simp add: OpenFile_def unused_fd_def encoder_open_def encoder_request_def
        closed_recorder_def EncoderToFile.simps WriteToFile.simps os_write_def append_file_def
        encoder_read_def)
  have hc: "fst (OpenFile (os c) (path c)) < 0"
    unfolding c_def by (simp add: OpenFile_def closed_recorder_def)
  have va: "descriptors (os a) = [(0, ''stdin''), (1, ''stdout'')]" "path a = ''out.ogg''"
    and vb: "descriptors (os b) = [(0, ''stdin''), (1, ''stdout'')]" "path b = ''out.ogg''"
    unfolding a_def b_def by (simp_all add: closed_recorder_def)
  note ra = Open_failure_leaves_nothing [of a cd_quality "''no such codec''", THEN conjunct2, THEN conjunct1, THEN mp, OF ha]
  note rb = Open_failure_leaves_nothing [of b cd_quality "''Failed to write to out.ogg''",
                THEN conjunct2, THEN conjunct2, THEN conjunct1, THEN mp, OF hb]
  note rc = Open_failure_leaves_nothing [of c cd_quality, THEN conjunct1, THEN mp, OF hc]
  have "fst (Open a cd_quality) = Failed ''no such codec''
      \<and> descriptors (os (snd (Open a cd_quality))) = [(0, ''stdin''), (1, ''stdout'')]
      \<and> files (os (snd (Open a cd_quality))) ''out.ogg'' = None
      \<and> fst (Open b cd_quality) = Failed ''Failed to write to out.ogg''
      \<and> descriptors (os (snd (Open b cd_quality))) = [(0, ''stdin''), (1, ''stdout'')]
      \<and> files (os (snd (Open b cd_quality))) ''out.ogg'' = None
      \<and> (\<exists>err. fst (Open c cd_quality) = Failed err)"
    using ra rb rc by (simp add: va vb)
  then show ?thesis
    unfolding a_def b_def c_def .
qed

text \<open>
  Claim C8, as amended. For a chunk that is not empty, \<open>Play\<close> returns the length
  of the chunk if and only if the encoder took the chunk and the drain of the
  encoder's output succeeded; it returns 0 when either step failed. After a
  success the encoder has nothing pending and the destination file has grown by all
  that was pending. (For an empty chunk the result is 0 either way.)
\<close>

theorem Play_all_or_nothing:
  "(pcm \<noteq> [] \<longrightarrow>
      (fst (Play r pcm) = length pcm \<longleftrightarrow>
         fst (encoder_write (encoder r) pcm) = Ok
         \<and> fst (EncoderToFile (r\<lparr>encoder := snd (encoder_write (encoder r) pcm)\<rparr>)) = Ok))
   \<and> (fst (encoder_write (encoder r) pcm) = Ok
        \<and> fst (EncoderToFile (r\<lparr>encoder := snd (encoder_write (encoder r) pcm)\<rparr>)) = Ok
      \<longrightarrow> fst (Play r pcm) = length pcm)
   \<and> (\<not> (fst (encoder_write (encoder r) pcm) = Ok
           \<and> fst (EncoderToFile (r\<lparr>encoder := snd (encoder_write (encoder r) pcm)\<rparr>)) = Ok)
      \<longrightarrow> fst (Play r pcm) = 0)
   \<and> (pcm \<noteq> [] \<and> fst (Play r pcm) = length pcm \<and> 0 \<le> fd r
        \<and> map_of (descriptors (os r)) (nat (fd r)) = Some q \<and> files (os r) q = Some old
      \<longrightarrow> pending (encoder (snd (snd (Play r pcm)))) = []
          \<and> files (os (snd (snd (Play r pcm)))) q
            = Some (old @ pending (snd (encoder_write (encoder r) pcm))))"
proof -
  obtain st1 e where w: "encoder_write (encoder r) pcm = (st1, e)"
    by (cases "encoder_write (encoder r) pcm")
  obtain st2 r2 where d: "EncoderToFile (r\<lparr>encoder := e\<rparr>) = (st2, r2)"
    by (cases "EncoderToFile (r\<lparr>encoder := e\<rparr>)")
  have play: "Play r pcm =
      (if st1 = Ok \<and> st2 = Ok then (length pcm, Ok, r2)
       else if st1 = Ok then (0, st2, r2) else (0, st1, r\<lparr>encoder := e\<rparr>))"
    using w d by (cases st1; cases st2) (simp_all add: Play_def)
  have drained: "pending (encoder r2) = []
        \<and> files (os r2) q = Some (old @ pending e)"
    if "st2 = Ok" "0 \<le> fd r" "map_of (descriptors (os r)) (nat (fd r)) = Some q"
      "files (os r) q = Some old"
    using EncoderToFile_drains [of "r\<lparr>encoder := e\<rparr>" r2 q old] d that by simp
  show ?thesis
    using play w d drained by (auto split: if_splits)
qed

theorem Play_all_or_nothing_witness:
  "fst (Play (open_recorder [Emits [1, 2, 3]] [Accepts 1, Refuses EINTR]) [5, 6]) = 2
   \<and> files (os (snd (snd (Play (open_recorder [Emits [1, 2, 3]] [Accepts 1, Refuses EINTR])
                            [5, 6])))) ''out.ogg''
     = Some [79, 1, 2, 3]
   \<and> fst (Play (open_recorder [Emits [1, 2, 3]] [Accepts 1, Refuses ENOSPC]) [5, 6]) = 0"
proof -
  let ?r = "open_recorder [Emits [1, 2, 3]] [Accepts 1, Refuses EINTR]"
  let ?bad = "open_recorder [Emits [1, 2, 3]] [Accepts 1, Refuses ENOSPC]"
  have n: "fst (Play ?r [5, 6]) = 2"
    by (simp add: Play_def EncoderToFile.simps WriteToFile.simps os_write_def append_file_def
        encoder_write_def encoder_read_def encoder_request_def open_recorder_def)
  have pre: "[5, 6 :: byte] \<noteq> [] \<and> fst (Play ?r [5, 6]) = length [5, 6 :: byte] \<and> 0 \<le> fd ?r
      \<and> map_of (descriptors (os ?r)) (nat (fd ?r)) = Some ''out.ogg''
      \<and> files (os ?r) ''out.ogg'' = Some [79]"
    using n by (simp add: open_recorder_def)
  have out: "pending (snd (encoder_write (encoder ?r) [5, 6])) = [1, 2, 3]"
    by (simp add: encoder_write_def encoder_request_def open_recorder_def)
  have fails: "\<not> (fst (encoder_write (encoder ?bad) [5, 6]) = Ok
      \<and> fst (EncoderToFile (?bad\<lparr>encoder := snd (encoder_write (encoder ?bad) [5, 6])\<rparr>)) = Ok)"
    by (simp add: EncoderToFile.simps WriteToFile.simps os_write_def append_file_def
        encoder_write_def encoder_read_def encoder_request_def open_recorder_def)
  have "files (os (snd (snd (Play ?r [5, 6])))) ''out.ogg''
        = Some ([79] @ pending (snd (encoder_write (encoder ?r) [5, 6])))"
    by (rule Play_all_or_nothing [of "[5, 6]" ?r "''out.ogg''" "[79]",
          THEN conjunct2, THEN conjunct2, THEN conjunct2, THEN mp, OF pre, THEN conjunct2])
  moreover have "fst (Play ?bad [5, 6]) = 0"
    by (rule Play_all_or_nothing [of "[5, 6]" ?bad,
          THEN conjunct2, THEN conjunct2, THEN conjunct1, THEN mp, OF fails])
  ultimately show ?thesis
    using n out by simp
qed

text \<open>
  C8 as stated fails for an empty chunk: the encoder refuses the write, and the
  result, 0, is the length of the input all the same.
\<close>

theorem Play_empty_counterexample:
  "fst (Play (open_recorder [Rejects ''encoder failed''] []) []) = length ([] :: byte list)
   \<and> fst (encoder_write (encoder (open_recorder [Rejects ''encoder failed''] [])) [])
     = Failed ''encoder failed''"
  by (simp add: Play_def encoder_write_def encoder_request_def open_recorder_def)

text \<open>
  Claim C9. \<open>SendTag\<close> calls the encoder's pre-tag hook, then reads the encoder
  until it has nothing more, writing what it reads to the destination file, then
  calls the tag hook. The first step that fails ends the sequence and its error is
  added to the log, as the one new line; when all three succeed the log is unchanged.
  \<open>SendTag\<close> has no error to return, and it leaves the descriptor, the path, the
  table of descriptors and the encoder open as they were. After a drain that
  succeeded the destination file has grown by all that was pending after the
  pre-tag hook, whether or not the tag hook then fails. Whatever \<open>SendTag\<close> did, a
  \<open>Play\<close> that follows, with an encoder that takes the chunk and a kernel that
  takes every byte, returns the length of its chunk and appends the encoder's
  output to the destination file. In the example the tag hook fails, and the
  \<open>Play\<close> that follows returns the length of its chunk.
\<close>

theorem SendTag_failure_is_only_logged:
  "encoder_pre_tag (encoder r) = (st1, e1) \<longrightarrow>
   EncoderToFile (r\<lparr>encoder := e1\<rparr>) = (st2, r2) \<longrightarrow>
   encoder_tag (encoder r2) tg = (st3, e3) \<longrightarrow>
     fd (SendTag r tg) = fd r \<and> path (SendTag r tg) = path r
     \<and> descriptors (os (SendTag r tg)) = descriptors (os r)
     \<and> is_open (encoder (SendTag r tg)) = is_open (encoder r)
     \<and> (\<forall>err. st1 = Failed err \<longrightarrow>
           SendTag r tg = r\<lparr>encoder := e1, logged := logged r @ [err]\<rparr>
           \<and> calls e1 = calls (encoder r) @ [EncPreTag]
           \<and> os (SendTag r tg) = os r)
     \<and> (\<forall>err. st1 = Ok \<and> st2 = Failed err \<longrightarrow>
           SendTag r tg = r2\<lparr>logged := logged r @ [err]\<rparr>
           \<and> (\<exists>ks. calls (encoder (SendTag r tg))
                     = calls (encoder r) @ EncPreTag # map EncRead ks))
     \<and> (\<forall>err. st1 = Ok \<and> st2 = Ok \<and> st3 = Failed err \<longrightarrow>
           SendTag r tg = r2\<lparr>encoder := e3, logged := logged r @ [err]\<rparr>)
     \<and> (st1 = Ok \<and> st2 = Ok \<and> st3 = Ok \<longrightarrow>
           SendTag r tg = r2\<lparr>encoder := e3\<rparr> \<and> logged (SendTag r tg) = logged r)
     \<and> (st1 = Ok \<and> st2 = Ok \<longrightarrow>
           (\<exists>ks. calls (encoder (SendTag r tg))
                   = calls (encoder r) @ EncPreTag # map EncRead ks @ [EncTag]
                 \<and> ks \<noteq> [] \<and> last ks = 0))
     \<and> (st1 = Ok \<and> st2 = Ok \<and> 0 \<le> fd r
          \<and> map_of (descriptors (os r)) (nat (fd r)) = Some q \<and> files (os r) q = Some old \<longrightarrow>
           pending (encoder r2) = []
           \<and> files (os (SendTag r tg)) q = Some (old @ pending e1))
     \<and> (replies (encoder (SendTag r tg)) = Emits bs # rest
          \<and> write_replies (os (SendTag r tg)) = [] \<and> 0 \<le> fd r
          \<and> map_of (descriptors (os r)) (nat (fd r)) = Some q
          \<and> files (os (SendTag r tg)) q = Some now \<longrightarrow>
           fst (Play (SendTag r tg) pcm) = length pcm
           \<and> fst (snd (Play (SendTag r tg) pcm)) = Ok
           \<and> files (os (snd (snd (Play (SendTag r tg) pcm)))) q
             = Some (now @ pending (encoder (SendTag r tg)) @ bs))
     \<and> logged (SendTag (open_recorder [Emits [1], Rejects ''tag refused'', Emits [9]] [])
                 \<lparr>duration = 0, items = []\<rparr>) = [''tag refused'']
     \<and> fst (Play (SendTag (open_recorder [Emits [1], Rejects ''tag refused'', Emits [9]] [])
                     \<lparr>duration = 0, items = []\<rparr>) [5, 6]) = 2"
proof (intro impI)
  assume p: "encoder_pre_tag (encoder r) = (st1, e1)"
    and d: "EncoderToFile (r\<lparr>encoder := e1\<rparr>) = (st2, r2)"
    and t: "encoder_tag (encoder r2) tg = (st3, e3)"
  let ?x = "SendTag r tg"
  have e1: "calls e1 = calls (encoder r) @ [EncPreTag]" "is_open e1 = is_open (encoder r)"
    using p encoder_request_calls [of "encoder r" EncPreTag]
    by (simp_all add: encoder_pre_tag_def)
  note fr = EncoderToFile_frame [OF d]
  obtain ks where ks: "calls (encoder r2) = calls e1 @ map EncRead ks"
      "st2 = Ok \<longrightarrow> ks \<noteq> [] \<and> last ks = 0"
    using EncoderToFile_calls [OF d] by auto
  have e3: "calls e3 = calls (encoder r2) @ [EncTag]" "is_open e3 = is_open (encoder r2)"
    using t encoder_request_calls [of "encoder r2" EncTag]
    by (simp_all add: encoder_tag_def)
  have x: "?x = (case st1 of
                  Failed err \<Rightarrow> r\<lparr>encoder := e1, logged := logged r @ [err]\<rparr>
                | Ok \<Rightarrow> (case st2 of
                     Failed err \<Rightarrow> r2\<lparr>logged := logged r @ [err]\<rparr>
                   | Ok \<Rightarrow> (case st3 of
                        Failed err \<Rightarrow> r2\<lparr>encoder := e3, logged := logged r @ [err]\<rparr>
                      | Ok \<Rightarrow> r2\<lparr>encoder := e3\<rparr>)))"
    using p d t fr by (simp add: SendTag_def LogError_def split: status.splits)
  have frame: "fd ?x = fd r \<and> path ?x = path r \<and> descriptors (os ?x) = descriptors (os r)
      \<and> is_open (encoder ?x) = is_open (encoder r)"
    using x fr e1 e3 by (cases st1; cases st2; cases st3) simp_all
  have c1: "\<forall>err. st1 = Failed err \<longrightarrow>
           ?x = r\<lparr>encoder := e1, logged := logged r @ [err]\<rparr>
           \<and> calls e1 = calls (encoder r) @ [EncPreTag] \<and> os ?x = os r"
    using x e1 by simp
  have c2: "\<forall>err. st1 = Ok \<and> st2 = Failed err \<longrightarrow>
           ?x = r2\<lparr>logged := logged r @ [err]\<rparr>
           \<and> (\<exists>ks. calls (encoder ?x) = calls (encoder r) @ EncPreTag # map EncRead ks)"
    using x e1 ks(1) by auto
  have c3: "\<forall>err. st1 = Ok \<and> st2 = Ok \<and> st3 = Failed err \<longrightarrow>
           ?x = r2\<lparr>encoder := e3, logged := logged r @ [err]\<rparr>"
    using x by simp
  have c4: "st1 = Ok \<and> st2 = Ok \<and> st3 = Ok \<longrightarrow>
           ?x = r2\<lparr>encoder := e3\<rparr> \<and> logged ?x = logged r"
    using x fr by simp
  have c5: "st1 = Ok \<and> st2 = Ok \<longrightarrow>
           (\<exists>ks. calls (encoder ?x) = calls (encoder r) @ EncPreTag # map EncRead ks @ [EncTag]
                 \<and> ks \<noteq> [] \<and> last ks = 0)"
  proof
    assume ok: "st1 = Ok \<and> st2 = Ok"
    then have "encoder ?x = e3"
      using x by (cases st3) simp_all
    then have "calls (encoder ?x) = calls (encoder r) @ EncPreTag # map EncRead ks @ [EncTag]"
      using e3 ks(1) e1 by simp
    with ks(2) ok show "\<exists>ks. calls (encoder ?x)
                   = calls (encoder r) @ EncPreTag # map EncRead ks @ [EncTag]
                 \<and> ks \<noteq> [] \<and> last ks = 0"
      by blast
  qed
  have c6: "st1 = Ok \<and> st2 = Ok \<and> 0 \<le> fd r
          \<and> map_of (descriptors (os r)) (nat (fd r)) = Some q \<and> files (os r) q = Some old \<longrightarrow>
           pending (encoder r2) = [] \<and> files (os ?x) q = Some (old @ pending e1)"
  proof
    assume h: "st1 = Ok \<and> st2 = Ok \<and> 0 \<le> fd r
          \<and> map_of (descriptors (os r)) (nat (fd r)) = Some q \<and> files (os r) q = Some old"
    have "pending (encoder r2) = []
        \<and> files (os r2) = (files (os (r\<lparr>encoder := e1\<rparr>)))(q \<mapsto> old @ pending (encoder (r\<lparr>encoder := e1\<rparr>)))"
      using EncoderToFile_drains [of "r\<lparr>encoder := e1\<rparr>" r2 q old] d h by simp
    then have "pending (encoder r2) = []" "files (os r2) q = Some (old @ pending e1)"
      by simp_all
    moreover have "os ?x = os r2"
      using x h by (cases st3) simp_all
    ultimately show "pending (encoder r2) = [] \<and> files (os ?x) q = Some (old @ pending e1)"
      by simp
  qed
  have c7: "replies (encoder ?x) = Emits bs # rest
          \<and> write_replies (os ?x) = [] \<and> 0 \<le> fd r
          \<and> map_of (descriptors (os r)) (nat (fd r)) = Some q
          \<and> files (os ?x) q = Some now \<longrightarrow>
           fst (Play ?x pcm) = length pcm
           \<and> fst (snd (Play ?x pcm)) = Ok
           \<and> files (os (snd (snd (Play ?x pcm)))) q
             = Some (now @ pending (encoder ?x) @ bs)"
  proof
    assume h: "replies (encoder ?x) = Emits bs # rest
          \<and> write_replies (os ?x) = [] \<and> 0 \<le> fd r
          \<and> map_of (descriptors (os r)) (nat (fd r)) = Some q
          \<and> files (os ?x) q = Some now"
    have "0 \<le> fd ?x" "map_of (descriptors (os ?x)) (nat (fd ?x)) = Some q"
      using h frame by simp_all
    from Play_succeeds [OF _ _ this, of bs rest now pcm] h
    show "fst (Play ?x pcm) = length pcm
           \<and> fst (snd (Play ?x pcm)) = Ok
           \<and> files (os (snd (snd (Play ?x pcm)))) q
             = Some (now @ pending (encoder ?x) @ bs)"
      by simp
  qed
  have ex1: "logged (SendTag (open_recorder [Emits [1], Rejects ''tag refused'', Emits [9]] [])
               \<lparr>duration = 0, items = []\<rparr>) = [''tag refused'']"
    by (simp add: Play_def SendTag_def LogError_def EncoderToFile.simps WriteToFile.simps
        os_write_def append_file_def encoder_write_def encoder_read_def encoder_pre_tag_def
        encoder_tag_def encoder_request_def open_recorder_def)
  have ex2: "fst (Play (SendTag (open_recorder [Emits [1], Rejects ''tag refused'', Emits [9]] [])
                   \<lparr>duration = 0, items = []\<rparr>) [5, 6]) = 2"
    by (simp add: Play_def SendTag_def LogError_def EncoderToFile.simps WriteToFile.simps
        os_write_def append_file_def encoder_write_def encoder_read_def encoder_pre_tag_def
        encoder_tag_def encoder_request_def open_recorder_def)
  show "fd ?x = fd r \<and> path ?x = path r
     \<and> descriptors (os ?x) = descriptors (os r)
     \<and> is_open (encoder ?x) = is_open (encoder r)
     \<and> (\<forall>err. st1 = Failed err \<longrightarrow>
           ?x = r\<lparr>encoder := e1, logged := logged r @ [err]\<rparr>
           \<and> calls e1 = calls (encoder r) @ [EncPreTag]
           \<and> os ?x = os r)
     \<and> (\<forall>err. st1 = Ok \<and> st2 = Failed err \<longrightarrow>
           ?x = r2\<lparr>logged := logged r @ [err]\<rparr>
           \<and> (\<exists>ks. calls (encoder ?x)
                     = calls (encoder r) @ EncPreTag # map EncRead ks))
     \<and> (\<forall>err. st1 = Ok \<and> st2 = Ok \<and> st3 = Failed err \<longrightarrow>
           ?x = r2\<lparr>encoder := e3, logged := logged r @ [err]\<rparr>)
     \<and> (st1 = Ok \<and> st2 = Ok \<and> st3 = Ok \<longrightarrow>
           ?x = r2\<lparr>encoder := e3\<rparr> \<and> logged ?x = logged r)
     \<and> (st1 = Ok \<and> st2 = Ok \<longrightarrow>
           (\<exists>ks. calls (encoder ?x)
                   = calls (encoder r) @ EncPreTag # map EncRead ks @ [EncTag]
                 \<and> ks \<noteq> [] \<and> last ks = 0))
     \<and> (st1 = Ok \<and> st2 = Ok \<and> 0 \<le> fd r
          \<and> map_of (descriptors (os r)) (nat (fd r)) = Some q \<and> files (os r) q = Some old \<longrightarrow>
           pending (encoder r2) = []
           \<and> files (os ?x) q = Some (old @ pending e1))
     \<and> (replies (encoder ?x) = Emits bs # rest
          \<and> write_replies (os ?x) = [] \<and> 0 \<le> fd r
          \<and> map_of (descriptors (os r)) (nat (fd r)) = Some q
          \<and> files (os ?x) q = Some now \<longrightarrow>
           fst (Play ?x pcm) = length pcm
           \<and> fst (snd (Play ?x pcm)) = Ok
           \<and> files (os (snd (snd (Play ?x pcm)))) q
             = Some (now @ pending (encoder ?x) @ bs))
     \<and> logged (SendTag (open_recorder [Emits [1], Rejects ''tag refused'', Emits [9]] [])
                 \<lparr>duration = 0, items = []\<rparr>) = [''tag refused'']
     \<and> fst (Play (SendTag (open_recorder [Emits [1], Rejects ''tag refused'', Emits [9]] [])
                     \<lparr>duration = 0, items = []\<rparr>) [5, 6]) = 2"
    using frame c1 c2 c3 c4 c5 c6 c7 ex1 ex2 by (intro conjI) (simp_all only:)
qed

theorem SendTag_failure_is_only_logged_witness:
  "logged (SendTag (open_recorder [Emits [1], Rejects ''tag refused'', Emits [9]] [])
             \<lparr>duration = 0, items = []\<rparr>) = [''tag refused'']
   \<and> files (os (SendTag (open_recorder [Emits [1], Rejects ''tag refused'', Emits [9]] [])
                   \<lparr>duration = 0, items = []\<rparr>)) ''out.ogg'' = Some [79, 1]
   \<and> is_open (encoder (SendTag (open_recorder [Emits [1], Rejects ''tag refused'', Emits [9]] [])
                          \<lparr>duration = 0, items = []\<rparr>))
   \<and> fst (Play (SendTag (open_recorder [Emits [1], Rejects ''tag refused'', Emits [9]] [])
                   \<lparr>duration = 0, items = []\<rparr>) [5, 6]) = 2
   \<and> files (os (snd (snd (Play (SendTag (open_recorder [Emits [1], Rejects ''tag refused'',
                                                         Emits [9]] [])
                                   \<lparr>duration = 0, items = []\<rparr>) [5, 6])))) ''out.ogg''
     = Some [79, 1, 9]
   \<and> logged (SendTag (open_recorder [Rejects ''no tags here''] []) \<lparr>duration = 0, items = []\<rparr>)
     = [''no tags here'']
   \<and> files (os (SendTag (open_recorder [Rejects ''no tags here''] [])
                   \<lparr>duration = 0, items = []\<rparr>)) ''out.ogg'' = Some [79]"
proof -
  define r where "r = open_recorder [Emits [1], Rejects ''tag refused'', Emits [9]] []"
  define u where "u = open_recorder [Rejects ''no tags here''] []"
  define tg where "tg = \<lparr>duration = 0, items = []\<rparr>"
  define p where "p = encoder_pre_tag (encoder r)"
  define d where "d = EncoderToFile (r\<lparr>encoder := snd p\<rparr>)"
  define t where "t = encoder_tag (encoder (snd d)) tg"
  define p' where "p' = encoder_pre_tag (encoder u)"
  define d' where "d' = EncoderToFile (u\<lparr>encoder := snd p'\<rparr>)"
  define t' where "t' = encoder_tag (encoder (snd d')) tg"
  have hp: "encoder_pre_tag (encoder r) = (fst p, snd p)"
    and hd: "EncoderToFile (r\<lparr>encoder := snd p\<rparr>) = (fst d, snd d)"
    and ht: "encoder_tag (encoder (snd d)) tg = (fst t, snd t)"
    and hp': "encoder_pre_tag (encoder u) = (fst p', snd p')"
    and hd': "EncoderToFile (u\<lparr>encoder := snd p'\<rparr>) = (fst d', snd d')"
    and ht': "encoder_tag (encoder (snd d')) tg = (fst t', snd t')"
    by (simp_all add: p_def d_def t_def p'_def d'_def t'_def)
  note th = SendTag_failure_is_only_logged [of r "fst p" "snd p" "fst d" "snd d" tg "fst t" "snd t"
                   "''out.ogg''" "[79]" "[9]" "[]" "[79, 1]" "[5, 6]",
                THEN mp, OF hp, THEN mp, OF hd, THEN mp, OF ht]
  note th' = SendTag_failure_is_only_logged [of u "fst p'" "snd p'" "fst d'" "snd d'" tg "fst t'" "snd t'",
                 THEN mp, OF hp', THEN mp, OF hd', THEN mp, OF ht']
  have v: "fst p = Ok" "pending (snd p) = [1]" "fst d = Ok" "fst t = Failed ''tag refused''"
      "0 \<le> fd r" "map_of (descriptors (os r)) (nat (fd r)) = Some ''out.ogg''"
      "files (os r) ''out.ogg'' = Some [79]" "logged r = []" "is_open (encoder r)"
    unfolding t_def d_def p_def r_def tg_def
    by (simp_all add: EncoderToFile.simps WriteToFile.simps
        os_write_def append_file_def encoder_read_def encoder_pre_tag_def
        encoder_tag_def encoder_request_def open_recorder_def)
  have w: "replies (encoder (SendTag r tg)) = [Emits [9]]"
      "write_replies (os (SendTag r tg)) = []" "pending (encoder (SendTag r tg)) = []"
    unfolding r_def tg_def
    by (simp_all add: SendTag_def LogError_def EncoderToFile.simps WriteToFile.simps
        os_write_def append_file_def encoder_read_def encoder_pre_tag_def
        encoder_tag_def encoder_request_def open_recorder_def)
  have v': "fst p' = Failed ''no tags here''" "files (os u) ''out.ogg'' = Some [79]"
      "logged u = []"
    unfolding p'_def u_def
    by (simp_all add: encoder_pre_tag_def encoder_request_def open_recorder_def)
  have a1: "logged (SendTag r tg) = [''tag refused'']"
    using th [THEN conjunct2, THEN conjunct2, THEN conjunct2, THEN conjunct2, THEN conjunct2, THEN conjunct2, THEN conjunct1] v by simp
  have a2: "files (os (SendTag r tg)) ''out.ogg'' = Some [79, 1]"
    using th [THEN conjunct2, THEN conjunct2, THEN conjunct2, THEN conjunct2, THEN conjunct2, THEN conjunct2, THEN conjunct2, THEN conjunct2, THEN conjunct2, THEN conjunct1] v by simp
  have a3: "is_open (encoder (SendTag r tg))"
    using th [THEN conjunct2, THEN conjunct2, THEN conjunct2, THEN conjunct1] v by simp
  have a4: "fst (Play (SendTag r tg) [5, 6]) = 2
      \<and> files (os (snd (snd (Play (SendTag r tg) [5, 6])))) ''out.ogg'' = Some [79, 1, 9]"
    using th [THEN conjunct2, THEN conjunct2, THEN conjunct2, THEN conjunct2, THEN conjunct2, THEN conjunct2, THEN conjunct2, THEN conjunct2, THEN conjunct2, THEN conjunct2, THEN conjunct1] v(5,6) w a2 by simp
  have b1: "logged (SendTag u tg) = [''no tags here'']
      \<and> files (os (SendTag u tg)) ''out.ogg'' = Some [79]"
    using th' [THEN conjunct2, THEN conjunct2, THEN conjunct2, THEN conjunct2, THEN conjunct1] v' by simp
  have "logged (SendTag r tg) = [''tag refused'']
      \<and> files (os (SendTag r tg)) ''out.ogg'' = Some [79, 1]
      \<and> is_open (encoder (SendTag r tg))
      \<and> fst (Play (SendTag r tg) [5, 6]) = 2
      \<and> files (os (snd (snd (Play (SendTag r tg) [5, 6])))) ''out.ogg'' = Some [79, 1, 9]
      \<and> logged (SendTag u tg) = [''no tags here'']
      \<and> files (os (SendTag u tg)) ''out.ogg'' = Some [79]"
    using a1 a2 a3 a4 b1 by simp
  then show ?thesis
    unfolding r_def u_def tg_def .
qed

section \<open>Counting songs by group (src/db/Count.cxx)\<close>

text \<open>
  With a group tag given, \<open>PrintSongCount\<close> visits the selected songs with
  \<open>GroupCountVisitor\<close>, which keeps one \<open>SearchStats\<close> per value of the group tag in
  a \<open>std::map\<close>. \<open>n_songs\<close> is an \<open>unsigned\<close> and the total duration a 64-bit
  count of milliseconds; a tag's duration is a signed 32-bit count of milliseconds,
  negative when unknown. The visitor reads the song's tag only.
\<close>

record SearchStats =
  n_songs :: "32 word"
  total_duration :: "64 word"

type_synonym TagCountMap = "string \<rightharpoonup> SearchStats"

record LightSong =
  tag :: Tag

definition IsNegative :: "32 word \<Rightarrow> bool" where
  "IsNegative d = (sint d < 0)"

text \<open>
  Lines 83 to 88: \<open>insert\<close> leaves an entry that exists alone and makes one with the
  counters at zero otherwise; the counters of that entry are then advanced.
\<close>

definition count_song :: "TagCountMap \<Rightarrow> string \<Rightarrow> 32 word \<Rightarrow> TagCountMap" where
  "count_song m v d =
     (let s = (case m v of None \<Rightarrow> \<lparr>n_songs = 0, total_duration = 0\<rparr> | Some s \<Rightarrow> s);
          s1 = s\<lparr>n_songs := n_songs s + 1\<rparr>
      in m(v \<mapsto> (if IsNegative d then s1
                 else s1\<lparr>total_duration := total_duration s1 + scast d\<rparr>)))"

text \<open>Lines 77 to 95: the loop over the items of the tag, with its \<open>found\<close> flag.\<close>

fun collect_loop ::
  "TagType \<Rightarrow> 32 word \<Rightarrow> TagItem list \<Rightarrow> bool \<times> TagCountMap \<Rightarrow> bool \<times> TagCountMap" where
  "collect_loop grp d [] (found, m) = (found, m)"
| "collect_loop grp d (item # rest) (found, m) =
     (if item_type item = grp
      then collect_loop grp d rest (True, count_song m (item_value item) d)
      else collect_loop grp d rest (found, m))"

definition CollectGroupCounts :: "TagCountMap \<Rightarrow> TagType \<Rightarrow> Tag \<Rightarrow> bool \<times> TagCountMap" where
  "CollectGroupCounts m grp t = collect_loop grp (duration t) (items t) (False, m)"

text \<open>Lines 97 to 108.\<close>

definition GroupCountVisitor ::
  "TagCountMap \<Rightarrow> TagType \<Rightarrow> LightSong \<Rightarrow> bool \<times> TagCountMap" where
  "GroupCountVisitor m grp song =
     (case CollectGroupCounts m grp (tag song) of
        (found, m1) \<Rightarrow>
          if \<not> found \<and> grp = TAG_ALBUM_ARTIST
          then (True, snd (CollectGroupCounts m1 TAG_ARTIST (tag song)))
          else (True, m1))"

text \<open>
  What a map holds for a key, an absent entry counting as zero, and how often a value
  occurs among a tag's items of one type.
\<close>

definition stats_of :: "TagCountMap \<Rightarrow> string \<Rightarrow> SearchStats" where
  "stats_of m v = (case m v of None \<Rightarrow> \<lparr>n_songs = 0, total_duration = 0\<rparr> | Some s \<Rightarrow> s)"

definition occurrences :: "TagType \<Rightarrow> TagItem list \<Rightarrow> string \<Rightarrow> nat" where
  "occurrences ty its v = length (filter (\<lambda>i. item_type i = ty \<and> item_value i = v) its)"

text \<open>
  Two songs for explicit inputs: one with the artists A, B and A and a title, three
  seconds long, and one of unknown length.
\<close>

definition two_artists :: LightSong where
  "two_artists =
     \<lparr>tag = \<lparr>duration = 3000,
              items = [\<lparr>item_type = TAG_ARTIST, item_value = ''A''\<rparr>,
                       \<lparr>item_type = TAG_TITLE, item_value = ''T''\<rparr>,
                       \<lparr>item_type = TAG_ARTIST, item_value = ''B''\<rparr>,
                       \<lparr>item_type = TAG_ARTIST, item_value = ''A''\<rparr>]\<rparr>\<rparr>"

definition unknown_length :: LightSong where
  "unknown_length =
     \<lparr>tag = \<lparr>duration = -1,
              items = [\<lparr>item_type = TAG_ARTIST, item_value = ''A''\<rparr>]\<rparr>\<rparr>"

lemma stats_of_count_song:
  "stats_of (count_song m v d) w =
     (if w = v
      then \<lparr>n_songs = n_songs (stats_of m v) + 1,
            total_duration = total_duration (stats_of m v)
                             + (if IsNegative d then 0 else scast d)\<rparr>
      else stats_of m w)"
  by (simp add: stats_of_def count_song_def Let_def split: option.splits)

lemma dom_count_song: "dom (count_song m v d) = insert v (dom m)"
  by (simp add: count_song_def Let_def)

lemma collect_loop_found:
  "fst (collect_loop grp d its (found, m)) \<longleftrightarrow> found \<or> (\<exists>i \<in> set its. item_type i = grp)"
  by (induction its arbitrary: found m) auto

lemma collect_loop_none:
  "\<forall>i \<in> set its. item_type i \<noteq> grp \<Longrightarrow> collect_loop grp d its (found, m) = (found, m)"
  by (induction its arbitrary: found m) auto

lemma collect_loop_stats:
  "n_songs (stats_of (snd (collect_loop grp d its (found, m))) v)
     = n_songs (stats_of m v) + of_nat (occurrences grp its v)
   \<and> total_duration (stats_of (snd (collect_loop grp d its (found, m))) v)
     = total_duration (stats_of m v)
       + (if IsNegative d then 0 else of_nat (occurrences grp its v) * scast d)"
proof (induction its arbitrary: found m)
  case Nil
  then show ?case by (simp add: occurrences_def)
next
  case (Cons item rest)
  consider (same) "item_type item = grp" "item_value item = v"
    | (other) "item_type item = grp" "item_value item \<noteq> v"
    | (skip) "item_type item \<noteq> grp"
    by blast
  then show ?case
  proof cases
    case same
    have occ: "occurrences grp (item # rest) v = Suc (occurrences grp rest v)"
      using same by (simp add: occurrences_def)
    have step: "collect_loop grp d (item # rest) (found, m)
                = collect_loop grp d rest (True, count_song m v d)"
      using same by simp
    show ?thesis
      unfolding step occ
      using Cons.IH [of True "count_song m v d"]
      by (cases "IsNegative d") (simp_all add: stats_of_count_song algebra_simps)
  next
    case other
    have occ: "occurrences grp (item # rest) v = occurrences grp rest v"
      using other by (simp add: occurrences_def)
    have step: "collect_loop grp d (item # rest) (found, m)
                = collect_loop grp d rest (True, count_song m (item_value item) d)"
      using other by simp
    show ?thesis
      unfolding step occ
      using Cons.IH [of True "count_song m (item_value item) d"] other
      by (simp add: stats_of_count_song)
  next
    case skip
    have occ: "occurrences grp (item # rest) v = occurrences grp rest v"
      using skip by (simp add: occurrences_def)
    have step: "collect_loop grp d (item # rest) (found, m)
                = collect_loop grp d rest (found, m)"
      using skip by simp
    show ?thesis
      unfolding step occ using Cons.IH [of found m] by simp
  qed
qed

lemma collect_loop_dom:
  "dom (snd (collect_loop grp d its (found, m)))
     = dom m \<union> set (map item_value (filter (\<lambda>i. item_type i = grp) its))"
  by (induction its arbitrary: found m) (auto simp: dom_count_song)


lemma CollectGroupCounts_none:
  "\<forall>i \<in> set (items t). item_type i \<noteq> grp \<Longrightarrow> CollectGroupCounts m grp t = (False, m)"
  by (simp add: CollectGroupCounts_def collect_loop_none)

lemma GroupCountVisitor_negative:
  assumes "IsNegative (duration (tag song))"
  shows "total_duration (stats_of (snd (GroupCountVisitor m grp song)) v)
         = total_duration (stats_of m v)"
proof -
  obtain found m1 where c: "CollectGroupCounts m grp (tag song) = (found, m1)"
    by (cases "CollectGroupCounts m grp (tag song)")
  have one: "total_duration (stats_of m1 v) = total_duration (stats_of m v)"
    using collect_loop_stats [of grp "duration (tag song)" "items (tag song)" False m v]
      c assms
    by (simp add: CollectGroupCounts_def)
  have two: "total_duration (stats_of (snd (CollectGroupCounts m1 TAG_ARTIST (tag song))) v)
             = total_duration (stats_of m1 v)"
    using collect_loop_stats [of TAG_ARTIST "duration (tag song)" "items (tag song)" False m1 v]
      assms
    by (simp add: CollectGroupCounts_def)
  show ?thesis
    using c one two by (simp add: GroupCountVisitor_def)
qed

text \<open>
  Claim C10. For a song whose tag has no item of the group's type: when the group is
  AlbumArtist, every Artist item of the tag adds one song, and the tag's duration
  unless it is negative, to the entry of its value, and the keys of the map grow by
  these values; for any other group the map is unchanged. For every song, a negative
  duration changes no entry's total duration. The visitor always returns true.
\<close>

theorem GroupCountVisitor_fallback:
  "fst (GroupCountVisitor m grp song)
   \<and> ((\<forall>i \<in> set (items (tag song)). item_type i \<noteq> grp) \<longrightarrow>
        (grp = TAG_ALBUM_ARTIST \<longrightarrow>
           (\<forall>v. n_songs (stats_of (snd (GroupCountVisitor m grp song)) v)
                  = n_songs (stats_of m v)
                    + of_nat (occurrences TAG_ARTIST (items (tag song)) v)
               \<and> total_duration (stats_of (snd (GroupCountVisitor m grp song)) v)
                  = total_duration (stats_of m v)
                    + (if IsNegative (duration (tag song)) then 0
                       else of_nat (occurrences TAG_ARTIST (items (tag song)) v)
                            * scast (duration (tag song))))
           \<and> dom (snd (GroupCountVisitor m grp song))
             = dom m \<union> set (map item_value
                              (filter (\<lambda>i. item_type i = TAG_ARTIST) (items (tag song)))))
        \<and> (grp \<noteq> TAG_ALBUM_ARTIST \<longrightarrow> snd (GroupCountVisitor m grp song) = m))
   \<and> (IsNegative (duration (tag song)) \<longrightarrow>
        (\<forall>v. total_duration (stats_of (snd (GroupCountVisitor m grp song)) v)
              = total_duration (stats_of m v)))"
proof (intro conjI impI allI)
  show "fst (GroupCountVisitor m grp song)"
    by (simp add: GroupCountVisitor_def split: prod.splits)
next
  fix v
  assume none: "\<forall>i \<in> set (items (tag song)). item_type i \<noteq> grp"
    and aa: "grp = TAG_ALBUM_ARTIST"
  have v: "snd (GroupCountVisitor m grp song)
           = snd (collect_loop TAG_ARTIST (duration (tag song)) (items (tag song)) (False, m))"
    using CollectGroupCounts_none [OF none, of m] aa
    by (simp add: GroupCountVisitor_def CollectGroupCounts_def)
  show "n_songs (stats_of (snd (GroupCountVisitor m grp song)) v)
        = n_songs (stats_of m v) + of_nat (occurrences TAG_ARTIST (items (tag song)) v)"
    unfolding v
    using collect_loop_stats [of TAG_ARTIST "duration (tag song)" "items (tag song)" False m v]
    by simp
  show "total_duration (stats_of (snd (GroupCountVisitor m grp song)) v)
        = total_duration (stats_of m v)
          + (if IsNegative (duration (tag song)) then 0
             else of_nat (occurrences TAG_ARTIST (items (tag song)) v)
                  * scast (duration (tag song)))"
    unfolding v
    using collect_loop_stats [of TAG_ARTIST "duration (tag song)" "items (tag song)" False m v]
    by simp
next
  assume none: "\<forall>i \<in> set (items (tag song)). item_type i \<noteq> grp"
    and aa: "grp = TAG_ALBUM_ARTIST"
  have v: "snd (GroupCountVisitor m grp song)
           = snd (collect_loop TAG_ARTIST (duration (tag song)) (items (tag song)) (False, m))"
    using CollectGroupCounts_none [OF none, of m] aa
    by (simp add: GroupCountVisitor_def CollectGroupCounts_def)
  show "dom (snd (GroupCountVisitor m grp song))
        = dom m \<union> set (map item_value
                         (filter (\<lambda>i. item_type i = TAG_ARTIST) (items (tag song))))"
    unfolding v by (rule collect_loop_dom)
next
  assume none: "\<forall>i \<in> set (items (tag song)). item_type i \<noteq> grp"
    and other: "grp \<noteq> TAG_ALBUM_ARTIST"
  show "snd (GroupCountVisitor m grp song) = m"
    using CollectGroupCounts_none [OF none, of m] other
    by (simp add: GroupCountVisitor_def)
next
  fix v
  assume "IsNegative (duration (tag song))"
  then show "total_duration (stats_of (snd (GroupCountVisitor m grp song)) v)
             = total_duration (stats_of m v)"
    by (rule GroupCountVisitor_negative)
qed

theorem GroupCountVisitor_fallback_witness:
  "n_songs (stats_of (snd (GroupCountVisitor Map.empty TAG_ALBUM_ARTIST two_artists)) ''A'') = 2
   \<and> total_duration (stats_of (snd (GroupCountVisitor Map.empty TAG_ALBUM_ARTIST two_artists)) ''A'')
     = 6000
   \<and> dom (snd (GroupCountVisitor Map.empty TAG_ALBUM_ARTIST two_artists)) = {''A'', ''B''}
   \<and> snd (GroupCountVisitor Map.empty TAG_GENRE two_artists) = Map.empty
   \<and> total_duration (stats_of (snd (GroupCountVisitor Map.empty TAG_ARTIST unknown_length)) ''A'')
     = 0"
proof -
  have none: "\<forall>i \<in> set (items (tag two_artists)). item_type i \<noteq> TAG_ALBUM_ARTIST"
    and none': "\<forall>i \<in> set (items (tag two_artists)). item_type i \<noteq> TAG_GENRE"
    by (simp_all add: two_artists_def)
  have pos: "\<not> IsNegative (duration (tag two_artists))"
    by (simp add: two_artists_def IsNegative_def)
  have neg: "IsNegative (duration (tag unknown_length))"
    by (simp add: unknown_length_def IsNegative_def)
  have occ: "occurrences TAG_ARTIST (items (tag two_artists)) ''A'' = 2"
    by (simp add: two_artists_def occurrences_def)
  have d: "scast (duration (tag two_artists)) = (3000 :: 64 word)"
    by (simp add: two_artists_def)
  have vals: "set (map item_value
                    (filter (\<lambda>i. item_type i = TAG_ARTIST) (items (tag two_artists))))
              = {''A'', ''B''}"
    by (auto simp: two_artists_def)
  from GroupCountVisitor_fallback [of Map.empty TAG_ALBUM_ARTIST two_artists]
    GroupCountVisitor_fallback [of Map.empty TAG_GENRE two_artists]
    GroupCountVisitor_fallback [of Map.empty TAG_ARTIST unknown_length]
  show ?thesis
    using none none' pos neg occ d vals by (simp add: stats_of_def)
qed

end
